theory Spec2Isabelle
  imports Complex_Main "HOL-Library.Word" "HOL-Library.Sublist" "HOL-Library.Finite_Map"
    "HOL-Library.AList"
begin

text \<open>
  A model of the resumable upload service: the TUS endpoint (create, append, head), the
  multipart assembler with its staging store, the filename and duplicate strategies, and
  the client's partitioning policy and batch selection. Each definition follows the
  TypeScript function of the same name.
\<close>

section \<open>Strings\<close>

text \<open>
  A JavaScript string is a sequence of UTF-16 code units. Literals of the source are
  written through \<open>js\<close>, which embeds an ASCII literal.
\<close>

type_synonym jsstring = "16 word list"

definition js :: "string \<Rightarrow> jsstring" where
  "js s = map (\<lambda>c. of_nat (of_char c)) s"

definition slash :: "16 word" where
  "slash = 0x2F"

text \<open>
  \<open>TUS_SERVER_CONFIG.filenameSanitizeRegex\<close> is \<open>/[^a-zA-Z0-9._-]/g\<close>: the predicate
  holds of the code units the expression matches.
\<close>

definition filenameSanitizeRegex :: "16 word \<Rightarrow> bool" where
  "filenameSanitizeRegex c \<longleftrightarrow>
     \<not> ((0x61 \<le> c \<and> c \<le> 0x7A) \<or> (0x41 \<le> c \<and> c \<le> 0x5A) \<or> (0x30 \<le> c \<and> c \<le> 0x39)
        \<or> c = 0x2E \<or> c = 0x5F \<or> c = 0x2D)"

text \<open>\<open>filename.replace(regex, "_")\<close> with a global one-character pattern.\<close>

definition sanitizeFilename :: "jsstring \<Rightarrow> jsstring" where
  "sanitizeFilename filename = map (\<lambda>c. if filenameSanitizeRegex c then 0x5F else c) filename"

text \<open>
  The code units \<open>String.prototype.trim\<close> removes: the ECMAScript white space and line
  terminator code points.
\<close>

definition isWhiteSpace :: "16 word \<Rightarrow> bool" where
  "isWhiteSpace c \<longleftrightarrow>
     c \<in> {0x09, 0x0A, 0x0B, 0x0C, 0x0D, 0x20, 0xA0, 0x1680, 0x2028, 0x2029, 0x202F, 0x205F,
          0x3000, 0xFEFF}
     \<or> (0x2000 \<le> c \<and> c \<le> 0x200A)"

definition dropWhileEnd :: "('a \<Rightarrow> bool) \<Rightarrow> 'a list \<Rightarrow> 'a list" where
  "dropWhileEnd P s = rev (dropWhile P (rev s))"

definition trim :: "jsstring \<Rightarrow> jsstring" where
  "trim s = dropWhileEnd isWhiteSpace (dropWhile isWhiteSpace s)"

text \<open>
  \<open>s.replace(/^\/+|\/+$/g, '')\<close>: the first alternative removes the run of slashes at
  the start, the second the run at the end (when the whole string is slashes the first
  match already consumes it).
\<close>

definition stripSlashes :: "jsstring \<Rightarrow> jsstring" where
  "stripSlashes s = dropWhileEnd (\<lambda>c. c = slash) (dropWhile (\<lambda>c. c = slash) s)"

definition endsWith :: "jsstring \<Rightarrow> jsstring \<Rightarrow> bool" where
  "endsWith s searchString \<longleftrightarrow>
     length searchString \<le> length s \<and>
     drop (length s - length searchString) s = searchString"

text \<open>
  \<open>normalizeDestinationPath(destinationPath?: string)\<close>; \<open>None\<close> is \<open>undefined\<close>, and
  the empty string is falsy as well.
\<close>

definition normalizeDestinationPath :: "jsstring option \<Rightarrow> jsstring" where
  "normalizeDestinationPath destinationPath =
     (case destinationPath of
        None \<Rightarrow> []
      | Some p \<Rightarrow>
          if p = [] then []
          else let normalized = stripSlashes (trim p)
               in if normalized \<noteq> [] \<and> \<not> endsWith normalized [slash]
                  then normalized @ [slash] else normalized)"

section \<open>Client: partitioning policy and batch selection\<close>

definition MB :: nat where
  "MB = 1024 * 1024"

text \<open>
  \<open>getPartCount(fileSize)\<close>. A file size is a non-negative integer below \<open>2^53\<close>, on
  which the division by \<open>512 * MB = 2^29\<close> is exact, so \<open>Math.ceil\<close> is the ceiling of
  the real quotient.
\<close>

definition getPartCount :: "nat \<Rightarrow> nat" where
  "getPartCount fileSize =
     (if fileSize \<le> 512 * MB then 1
      else if fileSize > 4096 * MB then 8
      else nat \<lceil>real fileSize / real (512 * MB)\<rceil>)"

record FileWithParts =
  id_f :: jsstring
  name_f :: jsstring
  size_f :: nat
  parts :: nat

text \<open>The two variables \<open>bestBatch\<close> and \<open>bestTotal\<close> that the closure \<open>backtrack\<close> updates.\<close>

record best =
  bestBatch :: "FileWithParts list"
  bestTotal :: nat

text \<open>
  \<open>backtrack(currentBatch, remainingFiles, currentTotal, startIndex)\<close> and its \<open>for\<close>
  loop, which runs from \<open>i\<close> to the end of \<open>remainingFiles\<close>; the state of the two
  variables is passed through.
\<close>

function backtrack :: "nat \<Rightarrow> FileWithParts list \<Rightarrow> FileWithParts list \<Rightarrow> nat \<Rightarrow> nat \<Rightarrow> best \<Rightarrow> best"
  and backtrack_for :: "nat \<Rightarrow> FileWithParts list \<Rightarrow> FileWithParts list \<Rightarrow> nat \<Rightarrow> nat \<Rightarrow> best \<Rightarrow> best"
where
  "backtrack maxStreams currentBatch remainingFiles currentTotal startIndex b =
     (if currentTotal > maxStreams then b
      else backtrack_for maxStreams currentBatch remainingFiles currentTotal startIndex
             (if currentTotal > bestTotal b
              then \<lparr>bestBatch = currentBatch, bestTotal = currentTotal\<rparr> else b))"
| "backtrack_for maxStreams currentBatch remainingFiles currentTotal i b =
     (if i < length remainingFiles
      then let file = remainingFiles ! i;
               newTotal = currentTotal + parts file
           in backtrack_for maxStreams currentBatch remainingFiles currentTotal (i + 1)
                (if newTotal \<le> maxStreams
                 then backtrack maxStreams (currentBatch @ [file]) remainingFiles newTotal (i + 1) b
                 else b)
      else b)"
  by pat_completeness auto
termination
  by (relation "measure (\<lambda>x. case x of
          Inl (m, cb, rf, ct, si, b) \<Rightarrow> 2 * (length rf - si) + 1
        | Inr (m, cb, rf, ct, i, b) \<Rightarrow> 2 * (length rf - i))") auto

declare backtrack.simps [simp del] backtrack_for.simps [simp del]

definition findOptimalBatch :: "FileWithParts list \<Rightarrow> nat \<Rightarrow> FileWithParts list" where
  "findOptimalBatch files maxStreams =
     (if length files = 0 then []
      else bestBatch (backtrack maxStreams [] files 0 0 \<lparr>bestBatch = [], bestTotal = 0\<rparr>))"

abbreviation total :: "FileWithParts list \<Rightarrow> nat" where
  "total xs \<equiv> sum_list (map parts xs)"

datatype status = Pending | Uploading | Completed | Error

text \<open>
  \<open>QueuedFile\<close>, with the fields the batch selection reads (the file handle, the progress
  and the error message are not read by it).
\<close>

record QueuedFile =
  id_q :: jsstring
  status_q :: status
  name_q :: jsstring
  size_q :: nat

text \<open>\<open>remainingFiles\<close> of \<open>processQueueDynamic\<close>: the pending files with their part counts.\<close>

definition remainingFiles :: "QueuedFile list \<Rightarrow> FileWithParts list" where
  "remainingFiles fileQueue =
     map (\<lambda>file. \<lparr>id_f = id_q file, name_f = name_q file, size_f = size_q file,
                   parts = getPartCount (size_q file)\<rparr>)
         (filter (\<lambda>f. status_q f = Pending) fileQueue)"

text \<open>
  One turn of the loop of \<open>processQueueDynamic\<close>, up to the batch it launches: \<open>None\<close> is
  the \<open>break\<close> when no file is pending.
\<close>

definition selectBatch :: "QueuedFile list \<Rightarrow> nat \<Rightarrow> FileWithParts list option" where
  "selectBatch fileQueue maxStreamCount =
     (let remaining = remainingFiles fileQueue
      in if length remaining = 0 then None
         else let batch = findOptimalBatch remaining maxStreamCount
              in Some (if length batch = 0 then batch @ [remaining ! 0] else batch))"
section \<open>Server: data model\<close>

subsection \<open>Numbers\<close>

text \<open>
  A JavaScript number of this program: \<open>NaN\<close>, an infinity, or a double whose value is
  an integer (\<open>parseInt\<close>, lengths and their sums produce no fractions). Negative zero is
  not distinguished from zero: nothing in the program divides by it.
\<close>

datatype number = NaN | PosInfinity | NegInfinity | Num int

fun bitlen :: "nat \<Rightarrow> nat" where
  "bitlen n = (if n = 0 then 0 else Suc (bitlen (n div 2)))"

declare bitlen.simps [simp del]

text \<open>
  The double nearest to a natural number, ties to the even significand: a number of more
  than 53 bits loses the bits below the 53 leading ones.
\<close>

definition roundNat :: "nat \<Rightarrow> nat" where
  "roundNat n =
     (let s = bitlen n - 53;
          q = n div 2 ^ s;
          r = n mod 2 ^ s
      in if s = 0 then n
         else if 2 * r > 2 ^ s \<or> (2 * r = 2 ^ s \<and> odd q) then (q + 1) * 2 ^ s
         else q * 2 ^ s)"

text \<open>The number value of a mathematical integer; beyond the largest double it is infinite.\<close>

definition roundDouble :: "int \<Rightarrow> number" where
  "roundDouble z =
     (let m = roundNat (nat \<bar>z\<bar>)
      in if m \<ge> 2 ^ 1024 then (if z < 0 then NegInfinity else PosInfinity)
         else Num (if z < 0 then - int m else int m))"

text \<open>
  \<open>parseInt(s)\<close> with no radix: leading white space and a sign are skipped, \<open>0x\<close> or
  \<open>0X\<close> selects radix 16, and the longest prefix of digits is read and rounded to a
  double.
\<close>

definition digitValue :: "16 word \<Rightarrow> nat option" where
  "digitValue c =
     (if 0x30 \<le> c \<and> c \<le> 0x39 then Some (unat c - 0x30)
      else if 0x61 \<le> c \<and> c \<le> 0x7A then Some (unat c - 0x61 + 10)
      else if 0x41 \<le> c \<and> c \<le> 0x5A then Some (unat c - 0x41 + 10)
      else None)"

definition isDigitOf :: "nat \<Rightarrow> 16 word \<Rightarrow> bool" where
  "isDigitOf radix c \<longleftrightarrow> (case digitValue c of None \<Rightarrow> False | Some v \<Rightarrow> v < radix)"

definition digitsValue :: "nat \<Rightarrow> jsstring \<Rightarrow> nat" where
  "digitsValue radix ds =
     foldl (\<lambda>acc c. acc * radix + (case digitValue c of None \<Rightarrow> 0 | Some v \<Rightarrow> v)) 0 ds"

definition parseInt :: "jsstring \<Rightarrow> number" where
  "parseInt s =
     (let t = dropWhile isWhiteSpace s;
          negative = (t \<noteq> [] \<and> hd t = 0x2D);
          t1 = (if t \<noteq> [] \<and> (hd t = 0x2D \<or> hd t = 0x2B) then tl t else t);
          hex = (2 \<le> length t1 \<and> t1 ! 0 = 0x30 \<and> (t1 ! 1 = 0x78 \<or> t1 ! 1 = 0x58));
          radix = (if hex then 16 else 10);
          t2 = (if hex then drop 2 t1 else t1);
          ds = takeWhile (isDigitOf radix) t2
      in if ds = [] then NaN
         else roundDouble ((if negative then - 1 else 1) * int (digitsValue radix ds)))"

text \<open>
  \<open>parseInt\<close> of a field that may be \<open>undefined\<close>: \<open>parseInt(undefined)\<close> reads the text
  \<open>undefined\<close> and is \<open>NaN\<close>.
\<close>

definition parseIntOpt :: "jsstring option \<Rightarrow> number" where
  "parseIntOpt v = (case v of None \<Rightarrow> NaN | Some s \<Rightarrow> parseInt s)"

text \<open>
  A number field of a sidecar is a number or \<open>null\<close> (\<open>None\<close>). \<open>a === b\<close> for a number
  \<open>a\<close> and such a field: \<open>NaN\<close> and \<open>null\<close> equal nothing.
\<close>

definition sameNumber :: "number \<Rightarrow> number option \<Rightarrow> bool" where
  "sameNumber a b = (case b of None \<Rightarrow> False | Some y \<Rightarrow> a \<noteq> NaN \<and> a = y)"

text \<open>\<open>ToNumber\<close> of a field: \<open>null\<close> counts as 0.\<close>

definition numberOf :: "number option \<Rightarrow> number" where
  "numberOf a = (case a of None \<Rightarrow> Num 0 | Some x \<Rightarrow> x)"

text \<open>\<open>a + b\<close> and \<open>a <= b\<close> on numbers.\<close>

fun plus_number :: "number \<Rightarrow> number \<Rightarrow> number" where
  "plus_number NaN b = NaN"
| "plus_number a NaN = NaN"
| "plus_number PosInfinity NegInfinity = NaN"
| "plus_number NegInfinity PosInfinity = NaN"
| "plus_number PosInfinity b = PosInfinity"
| "plus_number a PosInfinity = PosInfinity"
| "plus_number NegInfinity b = NegInfinity"
| "plus_number a NegInfinity = NegInfinity"
| "plus_number (Num a) (Num b) = roundDouble (a + b)"

fun le_number :: "number \<Rightarrow> number \<Rightarrow> bool" where
  "le_number NaN b = False"
| "le_number a NaN = False"
| "le_number NegInfinity b = True"
| "le_number a PosInfinity = True"
| "le_number PosInfinity b = False"
| "le_number a NegInfinity = False"
| "le_number (Num a) (Num b) = (a \<le> b)"

subsection \<open>Strings that may be undefined\<close>

text \<open>A value of type \<open>string | undefined\<close> is truthy when it is a non-empty string.\<close>

definition truthy :: "jsstring option \<Rightarrow> bool" where
  "truthy v \<longleftrightarrow> (case v of None \<Rightarrow> False | Some s \<Rightarrow> s \<noteq> [])"

text \<open>\<open>v || d\<close> for a default string \<open>d\<close>.\<close>

definition orElse :: "jsstring option \<Rightarrow> jsstring \<Rightarrow> jsstring" where
  "orElse v d = (case v of None \<Rightarrow> d | Some s \<Rightarrow> if s = [] then d else s)"

text \<open>
  The decimal text of a natural number, which is the text a template literal prints for
  a number below \<open>10^21\<close>.
\<close>

fun toString :: "nat \<Rightarrow> jsstring" where
  "toString n =
     (if n < 10 then [of_nat (48 + n)]
      else toString (n div 10) @ [of_nat (48 + n mod 10)])"

declare toString.simps [simp del]

subsection \<open>Metadata and sidecars\<close>

text \<open>
  \<open>Partial<UploadMetadata>\<close>, the dictionary \<open>parseMetadata\<close> returns from the
  \<open>Upload-Metadata\<close> header: every field may be absent (\<open>None\<close> is \<open>undefined\<close>). The
  requests below carry the dictionary; the splitting and base64 decoding of the header
  text are not part of the model.
\<close>

record UploadMetadata =
  filename :: "jsstring option"
  filetype :: "jsstring option"
  multipartId :: "jsstring option"
  partIndex :: "jsstring option"
  totalParts :: "jsstring option"
  originalFileSize :: "jsstring option"
  withFilename :: "jsstring option"
  onDuplicate :: "jsstring option"
  destinationPath :: "jsstring option"

text \<open>\<open>UploadInfo\<close>, the object a sidecar holds.\<close>

record UploadInfo =
  id_u :: jsstring
  size_u :: "number option"
  offset_u :: "number option"
  metadata_u :: UploadMetadata
  creation_date :: jsstring

text \<open>
  A file is a sequence of bytes. A JSON text of an \<open>UploadInfo\<close> is kept as one cell
  \<open>Doc info\<close> that stands for its bytes, so that reading, appending and copying treat
  every file alike; \<open>JSON.parse\<close> succeeds on exactly the files that consist of one such
  text, and a file of payload bytes is taken not to parse.
\<close>

datatype cell = Byte "8 word" | Doc UploadInfo

type_synonym fdata = "cell list"

datatype errno = ENOENT | ENOTDIR | EISDIR | EEXIST | ENOTEMPTY | EINVAL | EBADF | EXDEV | EACCES | EIO

datatype exn = ErrnoException errno | TypeError | SyntaxError

text \<open>
  \<open>JSON.stringify\<close> writes \<open>null\<close> for \<open>NaN\<close> and the infinities; \<open>JSON.parse\<close> reads a
  numeral as the nearest double.
\<close>

definition stringifyNumber :: "number option \<Rightarrow> number option" where
  "stringifyNumber v = (case v of Some (Num n) \<Rightarrow> Some (Num n) | _ \<Rightarrow> None)"

definition JSON_stringify :: "UploadInfo \<Rightarrow> fdata" where
  "JSON_stringify info =
     [Doc (info\<lparr>size_u := stringifyNumber (size_u info), offset_u := stringifyNumber (offset_u info)\<rparr>)]"

definition parseNumber :: "number option \<Rightarrow> number option" where
  "parseNumber v = (case v of Some (Num n) \<Rightarrow> Some (roundDouble n) | _ \<Rightarrow> None)"

definition JSON_parse :: "fdata \<Rightarrow> exn + UploadInfo" where
  "JSON_parse d =
     (case d of
        [Doc info] \<Rightarrow> Inr (info\<lparr>size_u := parseNumber (size_u info), offset_u := parseNumber (offset_u info)\<rparr>)
      | _ \<Rightarrow> Inl SyntaxError)"

section \<open>Server: paths\<close>

text \<open>
  The functions of Node's \<open>path\<close> module the program calls, for POSIX paths. A path is
  a string; \<open>normalize\<close> resolves the segments \<open>.\<close> and \<open>..\<close> and the doubled separators
  of the text, keeps a leading and a trailing separator, and returns \<open>.\<close> for a path
  without segments.
\<close>

definition dot :: "16 word" where
  "dot = 0x2E"

fun splitOn :: "'a \<Rightarrow> 'a list \<Rightarrow> 'a list list" where
  "splitOn c [] = [[]]"
| "splitOn c (x # xs) =
     (if x = c then [] # splitOn c xs
      else (case splitOn c xs of [] \<Rightarrow> [[x]] | s # ss \<Rightarrow> (x # s) # ss))"

fun joinWith :: "'a \<Rightarrow> 'a list list \<Rightarrow> 'a list" where
  "joinWith c [] = []"
| "joinWith c [s] = s"
| "joinWith c (s # t # ss) = s @ c # joinWith c (t # ss)"

text \<open>
  \<open>normalizeString\<close>, on the segments of the path: \<open>res\<close> holds the segments kept so
  far, the last one first. A segment \<open>..\<close> removes the last kept segment unless that is
  \<open>..\<close> itself; with nothing to remove it is kept when the path is relative
  (\<open>allowAboveRoot\<close>) and dropped otherwise.
\<close>

fun normalizeString :: "bool \<Rightarrow> jsstring list \<Rightarrow> jsstring list \<Rightarrow> jsstring list" where
  "normalizeString allowAboveRoot [] res = rev res"
| "normalizeString allowAboveRoot (s # segs) res =
     (if s = [] \<or> s = [dot] then normalizeString allowAboveRoot segs res
      else if s = [dot, dot] then
        (if res \<noteq> [] \<and> hd res \<noteq> [dot, dot] then normalizeString allowAboveRoot segs (tl res)
         else if allowAboveRoot then normalizeString allowAboveRoot segs ([dot, dot] # res)
         else normalizeString allowAboveRoot segs res)
      else normalizeString allowAboveRoot segs (s # res))"

definition path_normalize :: "jsstring \<Rightarrow> jsstring" where
  "path_normalize p =
     (if p = [] then [dot]
      else let isAbsolute = (hd p = slash);
               trailingSeparator = (last p = slash);
               body = joinWith slash (normalizeString (\<not> isAbsolute) (splitOn slash p) [])
           in if body = [] then (if isAbsolute then [slash]
                                 else if trailingSeparator then [dot, slash] else [dot])
              else (if isAbsolute then [slash] else []) @ body
                   @ (if trailingSeparator then [slash] else []))"

text \<open>\<open>path.join(a, b)\<close>: the non-empty arguments are joined by a separator and normalized.\<close>

definition path_join :: "jsstring \<Rightarrow> jsstring \<Rightarrow> jsstring" where
  "path_join a b =
     (if a = [] \<and> b = [] then [dot]
      else if a = [] then path_normalize b
      else if b = [] then path_normalize a
      else path_normalize (a @ slash # b))"

text \<open>
  \<open>path.dirname(p)\<close>: the separators at the end are skipped, and the text before the
  last separator that remains is returned; the first character is never taken for that
  separator.
\<close>

definition path_dirname :: "jsstring \<Rightarrow> jsstring" where
  "path_dirname p =
     (if p = [] then [dot]
      else let hasRoot = (hd p = slash);
               stripped = dropWhileEnd (\<lambda>c. c = slash) (tl p);
               kept = butlast (dropWhileEnd (\<lambda>c. c \<noteq> slash) stripped)
           in if slash \<notin> set stripped then (if hasRoot then [slash] else [dot])
              else if hasRoot \<and> kept = [] then [slash, slash]
              else hd p # kept)"

text \<open>
  \<open>path.extname\<close> and \<open>path.basename(name, ext)\<close> on a name without a separator (the
  program passes a sanitized file name, which has none): the extension starts at the
  last dot, unless that dot is the first character or the name is \<open>..\<close>.
\<close>

definition extname :: "jsstring \<Rightarrow> jsstring" where
  "extname p =
     (if dot \<notin> set p then []
      else let startDot = length p - 1 - length (takeWhile (\<lambda>c. c \<noteq> dot) (rev p))
           in if startDot = 0 \<or> p = [dot, dot] then [] else drop startDot p)"

definition basename :: "jsstring \<Rightarrow> jsstring \<Rightarrow> jsstring" where
  "basename p ext =
     (if ext \<noteq> [] \<and> length ext \<le> length p
      then if ext = p then []
           else if endsWith p ext then take (length p - length ext) p else p
      else p)"

section \<open>Server: the machine\<close>

text \<open>
  The machine the server runs on: the working directory of the process, the two
  environment variables the configuration reads, the tree of files and directories, and
  for every operation the error the environment makes it fail with, if any (a device
  boundary, a permission, a full disk). A node is named by the list of the segments
  from the root; the root is a directory. Symbolic links are not part of the model.
\<close>

datatype node = File fdata | Directory

datatype fsop =
  OpRead jsstring | OpWrite jsstring | OpAppend jsstring
| OpOpen jsstring | OpWriteFd jsstring | OpClose jsstring
| OpUnlink jsstring | OpRename jsstring jsstring | OpCopy jsstring jsstring | OpMkdir jsstring

record machine =
  cwd :: "jsstring list"
  STAGING_DIR :: "jsstring option"
  MOUNT_PATH :: "jsstring option"
  nodes :: "(jsstring list, node) fmap"
  fault :: "fsop \<Rightarrow> errno option"

text \<open>The environment in which no operation is made to fail.\<close>

definition no_fault :: "fsop \<Rightarrow> errno option" where
  "no_fault op = None"

text \<open>\<open>TUS_SERVER_CONFIG.stagingDir\<close> and \<open>TUS_SERVER_CONFIG.mountPath\<close>.\<close>

definition stagingDir :: "machine \<Rightarrow> jsstring" where
  "stagingDir m = orElse (STAGING_DIR m) (js ''./staging'')"

definition mountPath :: "machine \<Rightarrow> jsstring" where
  "mountPath m = orElse (MOUNT_PATH m) (js ''./uploads'')"

text \<open>
  The node a path names: the segments are walked from the root for an absolute path and
  from the working directory otherwise; \<open>..\<close> at the root stays at the root.
\<close>

fun walk :: "jsstring list \<Rightarrow> jsstring list \<Rightarrow> jsstring list" where
  "walk cur [] = cur"
| "walk cur (s # segs) =
     (if s = [] \<or> s = [dot] then walk cur segs
      else if s = [dot, dot] then walk (butlast cur) segs
      else walk (cur @ [s]) segs)"

definition resolvePath :: "machine \<Rightarrow> jsstring \<Rightarrow> jsstring list" where
  "resolvePath m p =
     (if p \<noteq> [] \<and> hd p = slash then walk [] (splitOn slash p)
      else walk (cwd m) (splitOn slash p))"

definition lookupNode :: "machine \<Rightarrow> jsstring list \<Rightarrow> node option" where
  "lookupNode m k = (if k = [] then Some Directory else fmlookup (nodes m) k)"

text \<open>A path that ends with a separator names a directory only.\<close>

definition dirOnly :: "jsstring \<Rightarrow> bool" where
  "dirOnly p \<longleftrightarrow> p \<noteq> [] \<and> last p = slash"

definition stat :: "jsstring \<Rightarrow> machine \<Rightarrow> errno + node" where
  "stat p m =
     (case lookupNode m (resolvePath m p) of
        None \<Rightarrow> Inl ENOENT
      | Some Directory \<Rightarrow> Inr Directory
      | Some (File d) \<Rightarrow> if dirOnly p then Inl ENOTDIR else Inr (File d))"

text \<open>\<open>fs.existsSync\<close>, which is true of files and of directories and never throws.\<close>

definition existsSync :: "jsstring \<Rightarrow> machine \<Rightarrow> bool" where
  "existsSync p m \<longleftrightarrow> (case stat p m of Inl e \<Rightarrow> False | Inr n \<Rightarrow> True)"

definition readFileSync :: "jsstring \<Rightarrow> machine \<Rightarrow> errno + fdata" where
  "readFileSync p m =
     (case fault m (OpRead p) of
        Some e \<Rightarrow> Inl e
      | None \<Rightarrow>
          (case stat p m of
             Inl e \<Rightarrow> Inl e
           | Inr Directory \<Rightarrow> Inl EISDIR
           | Inr (File d) \<Rightarrow> Inr d))"

text \<open>
  Opening a path for writing and replacing the content \<open>d\<close> of the file by \<open>f d\<close>: a
  missing file is created empty when its parent is a directory.
\<close>

definition putFile :: "jsstring \<Rightarrow> (fdata \<Rightarrow> fdata) \<Rightarrow> machine \<Rightarrow> errno + machine" where
  "putFile p f m =
     (let k = resolvePath m p
      in case lookupNode m k of
           Some Directory \<Rightarrow> Inl EISDIR
         | Some (File d) \<Rightarrow>
             if dirOnly p then Inl ENOTDIR
             else Inr (m\<lparr>nodes := fmupd k (File (f d)) (nodes m)\<rparr>)
         | None \<Rightarrow>
             if dirOnly p then Inl EISDIR
             else (case lookupNode m (butlast k) of
                     None \<Rightarrow> Inl ENOENT
                   | Some (File d) \<Rightarrow> Inl ENOTDIR
                   | Some Directory \<Rightarrow> Inr (m\<lparr>nodes := fmupd k (File (f [])) (nodes m)\<rparr>)))"

definition writeFileSync :: "jsstring \<Rightarrow> fdata \<Rightarrow> machine \<Rightarrow> errno + machine" where
  "writeFileSync p d m =
     (case fault m (OpWrite p) of
        Some e \<Rightarrow> Inl e
      | None \<Rightarrow> putFile p (\<lambda>old. d) m)"

definition appendFileSync :: "jsstring \<Rightarrow> fdata \<Rightarrow> machine \<Rightarrow> errno + machine" where
  "appendFileSync p d m =
     (case fault m (OpAppend p) of
        Some e \<Rightarrow> Inl e
      | None \<Rightarrow> putFile p (\<lambda>old. old @ d) m)"

text \<open>
  \<open>fs.openSync(p, 'a')\<close>, \<open>fs.writeSync(fd, buffer, 0, buffer.length, position)\<close> and
  \<open>fs.closeSync(fd)\<close>, with the descriptor named by the path it was opened on. Opening
  creates a missing file; a write to a file opened for appending goes to its end
  whatever position is passed (the behaviour of Linux).
\<close>

definition openSync_a :: "jsstring \<Rightarrow> machine \<Rightarrow> errno + machine" where
  "openSync_a p m =
     (case fault m (OpOpen p) of
        Some e \<Rightarrow> Inl e
      | None \<Rightarrow> putFile p (\<lambda>old. old) m)"

definition writeSync :: "jsstring \<Rightarrow> fdata \<Rightarrow> machine \<Rightarrow> errno + machine" where
  "writeSync p d m =
     (case fault m (OpWriteFd p) of
        Some e \<Rightarrow> Inl e
      | None \<Rightarrow>
          (case lookupNode m (resolvePath m p) of
             Some (File old) \<Rightarrow> Inr (m\<lparr>nodes := fmupd (resolvePath m p) (File (old @ d)) (nodes m)\<rparr>)
           | _ \<Rightarrow> Inl EBADF))"

definition closeSync :: "jsstring \<Rightarrow> machine \<Rightarrow> errno + machine" where
  "closeSync p m = (case fault m (OpClose p) of Some e \<Rightarrow> Inl e | None \<Rightarrow> Inr m)"

definition unlinkSync :: "jsstring \<Rightarrow> machine \<Rightarrow> errno + machine" where
  "unlinkSync p m =
     (case fault m (OpUnlink p) of
        Some e \<Rightarrow> Inl e
      | None \<Rightarrow>
          (case stat p m of
             Inl e \<Rightarrow> Inl e
           | Inr Directory \<Rightarrow> Inl EISDIR
           | Inr (File d) \<Rightarrow> Inr (m\<lparr>nodes := fmdrop (resolvePath m p) (nodes m)\<rparr>)))"

text \<open>
  The nodes below a directory move with it: \<open>moveTree src dst\<close> names by \<open>dst @ rest\<close>
  what was named by \<open>src @ rest\<close>, and nothing is left at or below \<open>src\<close>.
\<close>

lemma moveTree_finite:
  fixes t :: "'a list \<rightharpoonup> 'b"
  assumes fin: "finite (dom t)"
  shows "finite (dom (\<lambda>k. if prefix dst k then t (src @ drop (length dst) k)
                          else if prefix src k then None else t k))"
proof -
  let ?t' = "\<lambda>k. if prefix dst k then t (src @ drop (length dst) k)
                  else if prefix src k then None else t k"
  have "dom ?t' \<subseteq> (\<lambda>k. dst @ drop (length src) k) ` dom t \<union> dom t"
  proof
    fix k assume k: "k \<in> dom ?t'"
    show "k \<in> (\<lambda>k. dst @ drop (length src) k) ` dom t \<union> dom t"
    proof (cases "prefix dst k")
      case True
      then obtain rest where r: "k = dst @ rest" by (auto simp: prefix_def)
      with k True have "src @ rest \<in> dom t" by (auto split: if_splits)
      moreover have "k = dst @ drop (length src) (src @ rest)" using r by simp
      ultimately show ?thesis by blast
    next
      case False
      with k show ?thesis by (auto split: if_splits)
    qed
  qed
  moreover have "finite ((\<lambda>k. dst @ drop (length src) k) ` dom t \<union> dom t)" using fin by simp
  ultimately show ?thesis by (rule finite_subset)
qed

definition moveTree :: "'a list \<Rightarrow> 'a list \<Rightarrow> ('a list, 'b) fmap \<Rightarrow> ('a list, 'b) fmap" where
  "moveTree src dst t =
     Abs_fmap (\<lambda>k. if prefix dst k then fmlookup t (src @ drop (length dst) k)
                    else if prefix src k then None
                    else fmlookup t k)"

lemma fmlookup_moveTree:
  "fmlookup (moveTree src dst t) k =
     (if prefix dst k then fmlookup t (src @ drop (length dst) k)
      else if prefix src k then None
      else fmlookup t k)"
proof -
  have "finite (dom (fmlookup t))" by simp
  then have "finite (dom (\<lambda>k. if prefix dst k then fmlookup t (src @ drop (length dst) k)
                          else if prefix src k then None else fmlookup t k))"
    by (rule moveTree_finite)
  then show ?thesis by (simp add: moveTree_def Abs_fmap_inverse)
qed

text \<open>
  \<open>fs.renameSync\<close>. A file replaces a file at the destination and does not replace a
  directory; a directory replaces an empty directory only, and does not move below
  itself; the parent of the destination is a directory.
\<close>

definition hasChildren :: "machine \<Rightarrow> jsstring list \<Rightarrow> bool" where
  "hasChildren m k \<longleftrightarrow> (\<exists>c \<in> fset (fmdom (nodes m)). strict_prefix k c)"

definition renameSync :: "jsstring \<Rightarrow> jsstring \<Rightarrow> machine \<Rightarrow> errno + machine" where
  "renameSync src dst m =
     (case fault m (OpRename src dst) of
        Some e \<Rightarrow> Inl e
      | None \<Rightarrow>
          (let ks = resolvePath m src; kd = resolvePath m dst
           in case stat src m of
                Inl e \<Rightarrow> Inl e
              | Inr (File d) \<Rightarrow>
                  if kd = ks then Inr m
                  else (case lookupNode m kd of
                          Some Directory \<Rightarrow> Inl EISDIR
                        | Some (File old) \<Rightarrow>
                            if dirOnly dst then Inl ENOTDIR
                            else Inr (m\<lparr>nodes := fmupd kd (File d) (fmdrop ks (nodes m))\<rparr>)
                        | None \<Rightarrow>
                            if dirOnly dst then Inl ENOTDIR
                            else (case lookupNode m (butlast kd) of
                                    None \<Rightarrow> Inl ENOENT
                                  | Some (File x) \<Rightarrow> Inl ENOTDIR
                                  | Some Directory \<Rightarrow>
                                      Inr (m\<lparr>nodes := fmupd kd (File d) (fmdrop ks (nodes m))\<rparr>)))
              | Inr Directory \<Rightarrow>
                  if kd = ks then Inr m
                  else if ks = [] \<or> prefix ks kd then Inl EINVAL
                  else (case lookupNode m kd of
                          Some (File old) \<Rightarrow> Inl ENOTDIR
                        | Some Directory \<Rightarrow>
                            if kd = [] \<or> hasChildren m kd then Inl ENOTEMPTY
                            else Inr (m\<lparr>nodes := moveTree ks kd (nodes m)\<rparr>)
                        | None \<Rightarrow>
                            (case lookupNode m (butlast kd) of
                               None \<Rightarrow> Inl ENOENT
                             | Some (File x) \<Rightarrow> Inl ENOTDIR
                             | Some Directory \<Rightarrow> Inr (m\<lparr>nodes := moveTree ks kd (nodes m)\<rparr>)))))"

text \<open>\<open>fs.copyFileSync\<close>, which replaces a file at the destination.\<close>

definition copyFileSync :: "jsstring \<Rightarrow> jsstring \<Rightarrow> machine \<Rightarrow> errno + machine" where
  "copyFileSync src dst m =
     (case fault m (OpCopy src dst) of
        Some e \<Rightarrow> Inl e
      | None \<Rightarrow>
          (case stat src m of
             Inl e \<Rightarrow> Inl e
           | Inr Directory \<Rightarrow> Inl EISDIR
           | Inr (File d) \<Rightarrow> putFile dst (\<lambda>old. d) m))"

text \<open>
  \<open>fs.mkdirSync(p, { recursive: true })\<close>: every missing directory on the way to the
  path is created; a file on the way makes the call fail.
\<close>

definition isFile :: "node option \<Rightarrow> bool" where
  "isFile n \<longleftrightarrow> (case n of Some (File d) \<Rightarrow> True | _ \<Rightarrow> False)"

definition mkdirSync_recursive :: "jsstring \<Rightarrow> machine \<Rightarrow> errno + machine" where
  "mkdirSync_recursive p m =
     (case fault m (OpMkdir p) of
        Some e \<Rightarrow> Inl e
      | None \<Rightarrow>
          (let k = resolvePath m p
           in if \<exists>a \<in> set (prefixes k). isFile (lookupNode m a)
              then Inl (if isFile (lookupNode m k) then EEXIST else ENOTDIR)
              else Inr (m\<lparr>nodes := fold (\<lambda>a t. if fmlookup t a = None then fmupd a Directory t else t)
                                      (tl (prefixes k)) (nodes m)\<rparr>)))"

text \<open>\<open>ensureDir\<close>, which does not catch the exception of \<open>mkdirSync\<close>.\<close>

definition ensureDir :: "jsstring \<Rightarrow> machine \<Rightarrow> errno + machine" where
  "ensureDir dir m =
     (if \<not> existsSync dir m then mkdirSync_recursive dir m else Inr m)"

section \<open>Server: file names and duplicate strategies\<close>

text \<open>The template \<open>`${base}(${i})${ext}`\<close>.\<close>

definition candidateName :: "jsstring \<Rightarrow> nat \<Rightarrow> jsstring \<Rightarrow> jsstring" where
  "candidateName base i ext = base @ js ''('' @ toString i @ js '')'' @ ext"

text \<open>
  The loop of \<open>getUniqueFilename\<close>, with the variables \<open>i\<close> and \<open>candidate\<close>:
  \<open>while (fs.existsSync(path.join(dir, candidate))) candidate = `${base}(${i++})${ext}`\<close>.
  The counter is a double: from \<open>2^53\<close> on, \<open>i++\<close> leaves it where it is, and the loop
  does not end when every candidate up to there exists.
\<close>

partial_function (option) getUniqueFilename_while ::
  "machine \<Rightarrow> jsstring \<Rightarrow> jsstring \<Rightarrow> jsstring \<Rightarrow> nat \<Rightarrow> jsstring \<Rightarrow> jsstring option" where
  "getUniqueFilename_while m dir base ext i candidate =
     (if existsSync (path_join dir candidate) m
      then getUniqueFilename_while m dir base ext (roundNat (i + 1)) (candidateName base i ext)
      else Some candidate)"

text \<open>
  The result of a function of the server that may throw and may change the files: the
  exception or the value, and the machine it leaves; \<open>None\<close> when it does not return.
\<close>

type_synonym 'a outcome = "((exn + 'a) \<times> machine) option"

definition getUniqueFilename :: "jsstring \<Rightarrow> jsstring \<Rightarrow> machine \<Rightarrow> jsstring outcome" where
  "getUniqueFilename name dir m =
     (case ensureDir dir m of
        Inl e \<Rightarrow> Some (Inl (ErrnoException e), m)
      | Inr m1 \<Rightarrow>
          (let ext = extname name;
               base = basename name ext
           in case getUniqueFilename_while m1 dir base ext 1 name of
                None \<Rightarrow> None
              | Some candidate \<Rightarrow> Some (Inr candidate, m1)))"

definition getDestinationDir :: "jsstring option \<Rightarrow> machine \<Rightarrow> jsstring" where
  "getDestinationDir destPath m = path_join (mountPath m) (normalizeDestinationPath destPath)"

definition getFullFilePath :: "jsstring \<Rightarrow> jsstring option \<Rightarrow> machine \<Rightarrow> jsstring" where
  "getFullFilePath name destPath m = path_join (getDestinationDir destPath m) name"

definition checkDuplicateFile :: "jsstring \<Rightarrow> jsstring option \<Rightarrow> machine \<Rightarrow> bool" where
  "checkDuplicateFile name destPath m = existsSync (getFullFilePath name destPath m) m"

subsection \<open>The strategy registries\<close>

text \<open>
  The two registries are plain objects, read with \<open>registry[name] || registry[fallback]\<close>.
  A name that is not a key of the registry is looked up in \<open>Object.prototype\<close>, whose
  members are found before the fallback applies. The handler is then called as a plain
  function, so \<open>this\<close> is \<open>undefined\<close>.
\<close>

datatype builtin =
  B_constructor | B_defineGetter | B_defineSetter | B_hasOwnProperty | B_lookupGetter
| B_lookupSetter | B_isPrototypeOf | B_propertyIsEnumerable | B_toString | B_valueOf
| B_proto | B_toLocaleString

definition Object_prototype :: "jsstring \<Rightarrow> builtin option" where
  "Object_prototype key =
     (if key = js ''constructor'' then Some B_constructor
      else if key = js ''__defineGetter__'' then Some B_defineGetter
      else if key = js ''__defineSetter__'' then Some B_defineSetter
      else if key = js ''hasOwnProperty'' then Some B_hasOwnProperty
      else if key = js ''__lookupGetter__'' then Some B_lookupGetter
      else if key = js ''__lookupSetter__'' then Some B_lookupSetter
      else if key = js ''isPrototypeOf'' then Some B_isPrototypeOf
      else if key = js ''propertyIsEnumerable'' then Some B_propertyIsEnumerable
      else if key = js ''toString'' then Some B_toString
      else if key = js ''valueOf'' then Some B_valueOf
      else if key = js ''__proto__'' then Some B_proto
      else if key = js ''toLocaleString'' then Some B_toLocaleString
      else None)"

text \<open>A value a handler returns: a string, or a value that is not a primitive string.\<close>

datatype jsvalue = JString jsstring | JOther

text \<open>
  The call \<open>f(a, b)\<close> of a member \<open>f\<close> of \<open>Object.prototype\<close> with \<open>this\<close> undefined;
  \<open>firstIsObject\<close> tells whether \<open>a\<close> is an object (the metadata) or a string.
  \<open>toString\<close> returns \<open>[object Undefined]\<close>; \<open>Object(a)\<close> returns an object;
  \<open>isPrototypeOf\<close> returns \<open>false\<close> for a primitive argument before it looks at \<open>this\<close>;
  \<open>__proto__\<close> is not a function; every other member converts \<open>this\<close> to an object and
  throws.
\<close>

definition callBuiltin :: "builtin \<Rightarrow> bool \<Rightarrow> exn + jsvalue" where
  "callBuiltin f firstIsObject =
     (case f of
        B_toString \<Rightarrow> Inr (JString (js ''[object Undefined]''))
      | B_constructor \<Rightarrow> Inr JOther
      | B_isPrototypeOf \<Rightarrow> if firstIsObject then Inl TypeError else Inr JOther
      | _ \<Rightarrow> Inl TypeError)"

datatype 'h property = OwnProperty 'h | InheritedProperty builtin | NoProperty

type_synonym DuplicateHandler = "jsstring \<Rightarrow> jsstring \<Rightarrow> machine \<Rightarrow> jsvalue outcome"

definition duplicateStrategies :: "jsstring \<Rightarrow> DuplicateHandler property" where
  "duplicateStrategies key =
     (if key = js ''prevent'' then OwnProperty (\<lambda>fname directory m. Some (Inr (JString fname), m))
      else if key = js ''number'' then
        OwnProperty (\<lambda>fname directory m.
          case getUniqueFilename fname directory m of
            None \<Rightarrow> None
          | Some (Inl e, m') \<Rightarrow> Some (Inl e, m')
          | Some (Inr candidate, m') \<Rightarrow> Some (Inr (JString candidate), m'))
      else (case Object_prototype key of
              Some f \<Rightarrow> InheritedProperty f
            | None \<Rightarrow> NoProperty))"

text \<open>\<open>handler(sanitized, destinationDir)\<close>.\<close>

definition callDuplicateHandler ::
  "DuplicateHandler property \<Rightarrow> jsstring \<Rightarrow> jsstring \<Rightarrow> machine \<Rightarrow> jsvalue outcome" where
  "callDuplicateHandler handler fname directory m =
     (case handler of
        OwnProperty h \<Rightarrow> h fname directory m
      | InheritedProperty f \<Rightarrow> Some (callBuiltin f False, m)
      | NoProperty \<Rightarrow> Some (Inl TypeError, m))"

type_synonym FilenameHandler = "UploadMetadata \<Rightarrow> jsstring \<Rightarrow> machine \<Rightarrow> jsvalue outcome"

definition filenameStrategies :: "jsstring \<Rightarrow> FilenameHandler property" where
  "filenameStrategies key =
     (if key = js ''default'' then OwnProperty (\<lambda>meta uploadId m. Some (Inr (JString uploadId), m))
      else if key = js ''original'' then
        OwnProperty (\<lambda>meta uploadId m.
          if \<not> truthy (filename meta) then Some (Inr (JString uploadId), m)
          else let sanitized = sanitizeFilename (orElse (filename meta) []);
                   duplicateStrategy = orElse (onDuplicate meta) (js ''prevent'');
                   handler = (case duplicateStrategies duplicateStrategy of
                                NoProperty \<Rightarrow> duplicateStrategies (js ''prevent'')
                              | found \<Rightarrow> found);
                   destinationDir = getDestinationDir (destinationPath meta) m
               in callDuplicateHandler handler sanitized destinationDir m)
      else (case Object_prototype key of
              Some f \<Rightarrow> InheritedProperty f
            | None \<Rightarrow> NoProperty))"

text \<open>\<open>handler(meta, uploadId)\<close>.\<close>

definition callFilenameHandler ::
  "FilenameHandler property \<Rightarrow> UploadMetadata \<Rightarrow> jsstring \<Rightarrow> machine \<Rightarrow> jsvalue outcome" where
  "callFilenameHandler handler meta uploadId m =
     (case handler of
        OwnProperty h \<Rightarrow> h meta uploadId m
      | InheritedProperty f \<Rightarrow> Some (callBuiltin f True, m)
      | NoProperty \<Rightarrow> Some (Inl TypeError, m))"

definition getFinalFilename :: "UploadMetadata \<Rightarrow> jsstring \<Rightarrow> machine \<Rightarrow> jsvalue outcome" where
  "getFinalFilename meta uploadId m =
     (let strategy = orElse (withFilename meta) (js ''default'');
          handler = (case filenameStrategies strategy of
                       NoProperty \<Rightarrow> filenameStrategies (js ''default'')
                     | found \<Rightarrow> found)
      in callFilenameHandler handler meta uploadId m)"

definition usesOriginalFilename :: "UploadMetadata \<Rightarrow> bool" where
  "usesOriginalFilename meta \<longleftrightarrow>
     orElse (withFilename meta) (js ''default'') = js ''original'' \<and> truthy (filename meta)"

subsection \<open>Moving a file to its destination\<close>

text \<open>
  \<open>moveFileWithFallback\<close>: the result is the boolean the function returns; every
  exception of the file system is caught inside.
\<close>

definition moveFileWithFallback :: "jsstring \<Rightarrow> jsstring \<Rightarrow> machine \<Rightarrow> bool \<times> machine" where
  "moveFileWithFallback src dst m =
     (case renameSync src dst m of
        Inr m' \<Rightarrow> (True, m')
      | Inl e \<Rightarrow>
          if e = EXDEV then
            (case copyFileSync src dst m of
               Inl copyError \<Rightarrow> (False, m)
             | Inr m1 \<Rightarrow>
                 (case unlinkSync src m1 of
                    Inl copyError \<Rightarrow> (False, m1)
                  | Inr m2 \<Rightarrow> (True, m2)))
          else (False, m))"

definition handleJsonFile :: "jsstring \<Rightarrow> jsstring \<Rightarrow> bool \<Rightarrow> machine \<Rightarrow> bool \<times> machine" where
  "handleJsonFile jsonPath destination keepJson m =
     (if \<not> existsSync jsonPath m then (True, m)
      else if keepJson then moveFileWithFallback jsonPath (destination @ js ''.json'') m
      else (case unlinkSync jsonPath m of
              Inl e \<Rightarrow> (False, m)
            | Inr m' \<Rightarrow> (True, m')))"

text \<open>\<open>moveFile\<close>: the call of \<open>ensureDir\<close> is outside every \<open>try\<close>, so its exception leaves the function.\<close>

definition moveFile ::
  "jsstring \<Rightarrow> jsstring \<Rightarrow> jsstring \<Rightarrow> bool \<Rightarrow> machine \<Rightarrow> (exn + bool) \<times> machine" where
  "moveFile src dst jsonPath keepJson m =
     (let destinationDir = path_dirname dst
      in case ensureDir destinationDir m of
           Inl e \<Rightarrow> (Inl (ErrnoException e), m)
         | Inr m0 \<Rightarrow>
             (case moveFileWithFallback src dst m0 of
                (moved, m1) \<Rightarrow>
                  if \<not> moved then (Inr False, m1)
                  else (case handleJsonFile jsonPath dst keepJson m1 of
                          (handled, m2) \<Rightarrow> (Inr handled, m2))))"

section \<open>Server: multipart assembler\<close>

text \<open>
  \<open>MultipartAssembly\<close>. The \<open>Map<number, string>\<close> of the parts is the list of its
  entries in insertion order, with one entry per key.
\<close>

record MultipartAssembly =
  parts_a :: "(number \<times> jsstring) list"
  totalParts_a :: number
  metadata_a :: UploadMetadata

text \<open>
  The state of the server process: the machine and the map \<open>assemblies\<close> of the
  \<open>TusMultipartManager\<close>, whose key may be \<open>undefined\<close>.
\<close>

record server =
  disk :: machine
  assemblies :: "jsstring option \<rightharpoonup> MultipartAssembly"

definition appendPartToFile :: "jsstring \<Rightarrow> jsstring \<Rightarrow> machine \<Rightarrow> exn + machine" where
  "appendPartToFile baseFilePath partPath m =
     (case readFileSync partPath m of
        Inl e \<Rightarrow> Inl (ErrnoException e)
      | Inr partData \<Rightarrow>
          (case appendFileSync baseFilePath partData m of
             Inl e \<Rightarrow> Inl (ErrnoException e)
           | Inr m' \<Rightarrow> Inr m'))"

text \<open>\<open>cleanupPartFiles\<close>: an error of either \<open>unlinkSync\<close> is logged and ends the function.\<close>

definition cleanupPartFiles :: "jsstring \<Rightarrow> machine \<Rightarrow> machine" where
  "cleanupPartFiles partId m =
     (let partPath = path_join (stagingDir m) partId;
          jsonPath = path_join (stagingDir m) (partId @ js ''.json'')
      in case (if existsSync partPath m then unlinkSync partPath m else Inr m) of
           Inl e \<Rightarrow> m
         | Inr m1 \<Rightarrow>
             if existsSync jsonPath m1
             then (case unlinkSync jsonPath m1 of Inl e \<Rightarrow> m1 | Inr m2 \<Rightarrow> m2)
             else m1)"

text \<open>The metadata object that \<open>assembleFile\<close> and \<open>updateAssembledMetadata\<close> both build.\<close>

definition assembledMetadata :: "UploadMetadata \<Rightarrow> UploadMetadata" where
  "assembledMetadata meta =
     \<lparr>filename = Some (orElse (filename meta) []),
      filetype = Some (orElse (filetype meta) []),
      multipartId = None, partIndex = None, totalParts = None, originalFileSize = None,
      withFilename = Some (orElse (withFilename meta) (js ''default'')),
      onDuplicate = Some (orElse (onDuplicate meta) (js ''prevent'')),
      destinationPath = destinationPath meta\<rparr>"

text \<open>\<open>updateAssembledMetadata\<close>: every error inside is logged and swallowed.\<close>

definition updateAssembledMetadata :: "jsstring \<Rightarrow> UploadMetadata \<Rightarrow> machine \<Rightarrow> machine" where
  "updateAssembledMetadata fileId meta m =
     (let jsonPath = path_join (stagingDir m) (fileId @ js ''.json'')
      in case readFileSync jsonPath m of
           Inl e \<Rightarrow> m
         | Inr text \<Rightarrow>
             (case JSON_parse text of
                Inl e \<Rightarrow> m
              | Inr originalJson \<Rightarrow>
                  let updatedMetadata =
                        \<lparr>id_u = fileId,
                         size_u = Some (parseInt (orElse (originalFileSize meta) (js ''0''))),
                         offset_u = Some (parseInt (orElse (originalFileSize meta) (js ''0''))),
                         metadata_u = assembledMetadata meta,
                         creation_date = creation_date originalJson\<rparr>
                  in (case writeFileSync jsonPath (JSON_stringify updatedMetadata) m of
                        Inl e \<Rightarrow> m
                      | Inr m' \<Rightarrow> m')))"

text \<open>
  \<open>processAssembledFile\<close>: \<open>path.join\<close> throws a \<open>TypeError\<close> on a final name that is
  not a string, no exception is caught, and the boolean of \<open>moveFile\<close> is not used.
\<close>

definition processAssembledFile :: "jsstring \<Rightarrow> UploadMetadata \<Rightarrow> machine \<Rightarrow> unit outcome" where
  "processAssembledFile uploadId meta m =
     (case getFinalFilename meta uploadId m of
        None \<Rightarrow> None
      | Some (Inl e, m1) \<Rightarrow> Some (Inl e, m1)
      | Some (Inr JOther, m1) \<Rightarrow> Some (Inl TypeError, m1)
      | Some (Inr (JString finalFilename), m1) \<Rightarrow>
          (let stagingPath = path_join (stagingDir m1) uploadId;
               destination = getFullFilePath finalFilename (destinationPath meta) m1;
               jsonPath = path_join (stagingDir m1) (uploadId @ js ''.json'')
           in case moveFile stagingPath destination jsonPath (\<not> usesOriginalFilename meta) m1 of
                (Inl e, m2) \<Rightarrow> Some (Inl e, m2)
              | (Inr moved, m2) \<Rightarrow> Some (Inr (), m2)))"

text \<open>
  The loop \<open>for (let i = 2; i <= assembly.totalParts; i++)\<close> of \<open>assembleFile\<close>, from
  \<open>i\<close> on. \<open>path.join\<close> throws a \<open>TypeError\<close> on the \<open>undefined\<close> that \<open>parts.get(i)\<close>
  returns for a missing key. The counter is a double.
\<close>

partial_function (option) assembleFile_for ::
  "number \<Rightarrow> MultipartAssembly \<Rightarrow> jsstring \<Rightarrow> machine \<Rightarrow> ((exn + unit) \<times> machine) option" where
  "assembleFile_for i assembly baseFilePath m =
     (if le_number i (totalParts_a assembly)
      then (case map_of (parts_a assembly) i of
              None \<Rightarrow> Some (Inl TypeError, m)
            | Some partId \<Rightarrow>
                (case appendPartToFile baseFilePath (path_join (stagingDir m) partId) m of
                   Inl e \<Rightarrow> Some (Inl e, m)
                 | Inr m1 \<Rightarrow>
                     assembleFile_for (plus_number i (Num 1)) assembly baseFilePath
                       (cleanupPartFiles partId m1)))
      else Some (Inr (), m))"

text \<open>\<open>assembleFile\<close>: its \<open>catch\<close> logs the error and throws it again.\<close>

definition assembleFile ::
  "jsstring option \<Rightarrow> MultipartAssembly \<Rightarrow> machine \<Rightarrow> unit outcome" where
  "assembleFile mid assembly m =
     (let meta = metadata_a assembly
      in case map_of (parts_a assembly) (Num 1) of
           None \<Rightarrow> Some (Inl TypeError, m)
         | Some firstPartId \<Rightarrow>
             (case assembleFile_for (Num 2) assembly (path_join (stagingDir m) firstPartId) m of
                None \<Rightarrow> None
              | Some (Inl e, m1) \<Rightarrow> Some (Inl e, m1)
              | Some (Inr u, m1) \<Rightarrow>
                  processAssembledFile firstPartId (assembledMetadata meta)
                    (updateAssembledMetadata firstPartId meta m1)))"

text \<open>
  The first half of \<open>handlePartCompletion\<close>: the assembly of the group, created when the
  map has none, with the part recorded by \<open>assembly.parts.set(partIndex, uploadId)\<close>.
\<close>

definition recordPart :: "jsstring \<Rightarrow> UploadMetadata \<Rightarrow> server \<Rightarrow> MultipartAssembly" where
  "recordPart uploadId metadata st =
     (let pIndex = parseIntOpt (partIndex metadata);
          tParts = parseIntOpt (totalParts metadata);
          assembly0 = (case assemblies st (multipartId metadata) of
                         None \<Rightarrow> \<lparr>parts_a = [], totalParts_a = tParts, metadata_a = metadata\<rparr>
                       | Some a \<Rightarrow> a)
      in assembly0\<lparr>parts_a := AList.update pIndex uploadId (parts_a assembly0)\<rparr>)"

text \<open>
  \<open>handlePartCompletion\<close>. \<open>parts.size === totalParts\<close> holds when \<open>totalParts\<close> is the
  number of entries; on both ways out of the assembly the entry of the group is deleted.
\<close>

definition handlePartCompletion ::
  "jsstring \<Rightarrow> UploadMetadata \<Rightarrow> server \<Rightarrow> ((exn + bool) \<times> server) option" where
  "handlePartCompletion uploadId metadata st =
     (let mid = multipartId metadata;
          assembly = recordPart uploadId metadata st
      in if totalParts_a assembly = Num (int (length (parts_a assembly)))
         then (case assembleFile mid assembly (disk st) of
                 None \<Rightarrow> None
               | Some (Inr u, m') \<Rightarrow>
                   Some (Inr True, \<lparr>disk = m', assemblies = (assemblies st)(mid := None)\<rparr>)
               | Some (Inl e, m') \<Rightarrow>
                   Some (Inl e, \<lparr>disk = m', assemblies = (assemblies st)(mid := None)\<rparr>))
         else Some (Inr False, st\<lparr>assemblies := (assemblies st)(mid \<mapsto> assembly)\<rparr>))"

section \<open>Server: the TUS endpoint\<close>

datatype body = NoBody | ErrorText jsstring | ErrorMessage jsstring

text \<open>
  A response: the status, the JSON body (\<open>{error: text}\<close> or \<open>{error: {message: text}}\<close>)
  and the headers the handlers set; a numeric header holds the number whose text is
  sent.
\<close>

record response =
  status_r :: nat
  body_r :: body
  Location :: "jsstring option"
  Tus_Resumable :: "jsstring option"
  Upload_Offset :: "number option"
  Upload_Length :: "number option"
  Upload_Complete :: "jsstring option"
  Cache_Control :: "jsstring option"

definition respond :: "nat \<Rightarrow> body \<Rightarrow> response" where
  "respond code b =
     \<lparr>status_r = code, body_r = b, Location = None, Tus_Resumable = None, Upload_Offset = None,
      Upload_Length = None, Upload_Complete = None, Cache_Control = None\<rparr>"

definition isMultipartPart :: "UploadMetadata \<Rightarrow> bool" where
  "isMultipartPart meta \<longleftrightarrow>
     (truthy (multipartId meta) \<and> truthy (partIndex meta) \<and> truthy (totalParts meta))
     \<and> totalParts meta \<noteq> Some (js ''1'')"

definition handleUploadComplete ::
  "jsstring \<Rightarrow> UploadInfo \<Rightarrow> server \<Rightarrow> ((exn + bool) \<times> server) option" where
  "handleUploadComplete uploadId uploadInfo st =
     (let meta = metadata_u uploadInfo
      in if isMultipartPart meta then handlePartCompletion uploadId meta st
         else (case getFinalFilename meta uploadId (disk st) of
                 None \<Rightarrow> None
               | Some (Inl e, m1) \<Rightarrow> Some (Inl e, st\<lparr>disk := m1\<rparr>)
               | Some (Inr JOther, m1) \<Rightarrow> Some (Inl TypeError, st\<lparr>disk := m1\<rparr>)
               | Some (Inr (JString finalFilename), m1) \<Rightarrow>
                   (let stagingPath = path_join (stagingDir m1) uploadId;
                        destination = getFullFilePath finalFilename (destinationPath meta) m1;
                        jsonPath = path_join (stagingDir m1) (uploadId @ js ''.json'')
                    in case moveFile stagingPath destination jsonPath
                              (\<not> usesOriginalFilename meta) m1 of
                         (Inl e, m2) \<Rightarrow> Some (Inl e, st\<lparr>disk := m2\<rparr>)
                       | (Inr moved, m2) \<Rightarrow> Some (Inr True, st\<lparr>disk := m2\<rparr>))))"

record post_request =
  c_upload_length :: "jsstring option"
  c_metadata :: UploadMetadata
  c_x_forwarded_proto :: "jsstring option"
  c_x_forwarded_host :: "jsstring option"
  c_host :: "jsstring option"

text \<open>
  \<open>POST\<close>. The identifier \<open>uuidv4()\<close> returns and the text of the current date are
  inputs. An exception inside the handler gives the response 500, after the effects
  that came before it.
\<close>

definition POST :: "post_request \<Rightarrow> jsstring \<Rightarrow> jsstring \<Rightarrow> server \<Rightarrow> response \<times> server" where
  "POST req uploadId now st =
     (if \<not> truthy (c_upload_length req)
      then (respond 400 (ErrorText (js ''Missing Upload-Length header'')), st)
      else
        let metadata = c_metadata req
        in if withFilename metadata = Some (js ''original'') \<and> truthy (filename metadata)
              \<and> onDuplicate metadata = Some (js ''prevent'')
              \<and> checkDuplicateFile (sanitizeFilename (orElse (filename metadata) []))
                    (destinationPath metadata) (disk st)
           then (respond 409 (ErrorMessage (js ''File \"'' @ orElse (filename metadata) []
                    @ js ''\" already exists and duplicates are not allowed'')), st)
           else
             let filePath = path_join (stagingDir (disk st)) uploadId;
                 metadataPath = path_join (stagingDir (disk st)) (uploadId @ js ''.json'')
             in case writeFileSync filePath [] (disk st) of
                  Inl e \<Rightarrow> (respond 500 (ErrorText (js ''Internal server error'')), st)
                | Inr m1 \<Rightarrow>
                    let uploadInfo =
                          \<lparr>id_u = uploadId,
                           size_u = Some (parseInt (orElse (c_upload_length req) [])),
                           offset_u = Some (Num 0),
                           metadata_u = metadata,
                           creation_date = now\<rparr>
                    in case writeFileSync metadataPath (JSON_stringify uploadInfo) m1 of
                         Inl e \<Rightarrow> (respond 500 (ErrorText (js ''Internal server error'')),
                                    st\<lparr>disk := m1\<rparr>)
                       | Inr m2 \<Rightarrow>
                           let protocol = orElse (c_x_forwarded_proto req) (js ''http'');
                               host = orElse (c_x_forwarded_host req)
                                        (orElse (c_host req) (js ''localhost:3000''));
                               location = protocol @ js ''://'' @ host @ js ''/api/upload/'' @ uploadId
                           in ((respond 201 NoBody)
                                 \<lparr>Location := Some location,
                                  Tus_Resumable := Some (js ''1.0.0''),
                                  Upload_Offset := Some (Num 0)\<rparr>,
                               st\<lparr>disk := m2\<rparr>))"

record patch_request =
  p_uploadId :: "jsstring option"
  p_upload_offset :: "jsstring option"
  p_content_type :: "jsstring option"
  p_body :: "8 word list"

text \<open>
  The three calls \<open>openSync\<close>, \<open>writeSync\<close>, \<open>closeSync\<close> by which \<open>PATCH\<close> appends the
  body to the payload file.
\<close>

definition appendBody :: "jsstring \<Rightarrow> 8 word list \<Rightarrow> machine \<Rightarrow> (errno \<times> machine) + machine" where
  "appendBody filePath buffer m =
     (case openSync_a filePath m of
        Inl e \<Rightarrow> Inl (e, m)
      | Inr m1 \<Rightarrow>
          (case writeSync filePath (map Byte buffer) m1 of
             Inl e \<Rightarrow> Inl (e, m1)
           | Inr m2 \<Rightarrow>
               (case closeSync filePath m2 of
                  Inl e \<Rightarrow> Inl (e, m2)
                | Inr m3 \<Rightarrow> Inr m3)))"

text \<open>
  The part of \<open>PATCH\<close> from the reading of the sidecar on: the result is the response,
  or the exception that the \<open>catch\<close> of the handler turns into the response 500.
\<close>

definition PATCH_try ::
  "jsstring \<Rightarrow> jsstring \<Rightarrow> 8 word list \<Rightarrow> server \<Rightarrow> ((exn + response) \<times> server) option" where
  "PATCH_try uploadId uploadOffset buffer st =
     (let filePath = path_join (stagingDir (disk st)) uploadId;
          metadataPath = path_join (stagingDir (disk st)) (uploadId @ js ''.json'')
      in case readFileSync metadataPath (disk st) of
           Inl e \<Rightarrow> Some (Inl (ErrnoException e), st)
         | Inr text \<Rightarrow>
             (case JSON_parse text of
                Inl e \<Rightarrow> Some (Inl e, st)
              | Inr uploadInfo0 \<Rightarrow>
                  let offset = parseInt uploadOffset
                  in if \<not> sameNumber offset (offset_u uploadInfo0)
                     then Some (Inr (respond 409 (ErrorText (js ''Offset mismatch''))), st)
                     else
                       (case appendBody filePath buffer (disk st) of
                          Inl (e, m1) \<Rightarrow> Some (Inl (ErrnoException e), st\<lparr>disk := m1\<rparr>)
                        | Inr m1 \<Rightarrow>
                            let uploadInfo = uploadInfo0
                                  \<lparr>offset_u := Some (plus_number (numberOf (offset_u uploadInfo0))
                                                      (Num (int (length buffer))))\<rparr>
                            in (case writeFileSync metadataPath (JSON_stringify uploadInfo) m1 of
                                  Inl e \<Rightarrow> Some (Inl (ErrnoException e), st\<lparr>disk := m1\<rparr>)
                                | Inr m2 \<Rightarrow>
                                    let isPartComplete =
                                          le_number (numberOf (size_u uploadInfo))
                                            (numberOf (offset_u uploadInfo));
                                        ok = (respond 204 NoBody)
                                               \<lparr>Tus_Resumable := Some (js ''1.0.0''),
                                                Upload_Offset := offset_u uploadInfo\<rparr>
                                    in if isPartComplete
                                       then (case handleUploadComplete uploadId uploadInfo (st\<lparr>disk := m2\<rparr>) of
                                               None \<Rightarrow> None
                                             | Some (Inl e, st') \<Rightarrow> Some (Inl e, st')
                                             | Some (Inr isFileComplete, st') \<Rightarrow>
                                                 Some (Inr (if isFileComplete
                                                            then ok\<lparr>Upload_Complete := Some (js ''true'')\<rparr>
                                                            else ok), st'))
                                       else Some (Inr ok, st\<lparr>disk := m2\<rparr>)))))"

definition PATCH :: "patch_request \<Rightarrow> server \<Rightarrow> (response \<times> server) option" where
  "PATCH req st =
     (if \<not> truthy (p_uploadId req)
      then Some (respond 400 (ErrorText (js ''Missing upload ID'')), st)
      else if \<not> truthy (p_upload_offset req)
      then Some (respond 400 (ErrorText (js ''Missing Upload-Offset header'')), st)
      else if p_content_type req \<noteq> Some (js ''application/offset+octet-stream'')
      then Some (respond 400 (ErrorText (js ''Invalid Content-Type'')), st)
      else if \<not> existsSync (path_join (stagingDir (disk st)) (orElse (p_uploadId req) [] @ js ''.json''))
                 (disk st)
      then Some (respond 404 (ErrorText (js ''Upload not found'')), st)
      else (case PATCH_try (orElse (p_uploadId req) []) (orElse (p_upload_offset req) [])
                   (p_body req) st of
              None \<Rightarrow> None
            | Some (Inl e, st') \<Rightarrow> Some (respond 500 (ErrorText (js ''Internal server error'')), st')
            | Some (Inr resp, st') \<Rightarrow> Some (resp, st')))"

text \<open>
  \<open>HEAD\<close>, which does not change the state. \<open>toString\<close> of a \<open>null\<close> offset or size
  throws, which gives the response 500.
\<close>

definition HEAD :: "jsstring option \<Rightarrow> server \<Rightarrow> response" where
  "HEAD uploadId st =
     (if \<not> truthy uploadId then respond 400 NoBody
      else let metadataPath = path_join (stagingDir (disk st)) (orElse uploadId [] @ js ''.json'')
           in if \<not> existsSync metadataPath (disk st) then respond 404 NoBody
              else (case readFileSync metadataPath (disk st) of
                      Inl e \<Rightarrow> respond 500 NoBody
                    | Inr text \<Rightarrow>
                        (case JSON_parse text of
                           Inl e \<Rightarrow> respond 500 NoBody
                         | Inr uploadInfo \<Rightarrow>
                             (case (offset_u uploadInfo, size_u uploadInfo) of
                                (Some off, Some sz) \<Rightarrow>
                                  (respond 200 NoBody)
                                    \<lparr>Tus_Resumable := Some (js ''1.0.0''),
                                     Upload_Offset := Some off,
                                     Upload_Length := Some sz,
                                     Cache_Control := Some (js ''no-store'')\<rparr>
                              | _ \<Rightarrow> respond 500 NoBody))))"

section \<open>Numbers: small integers are exact\<close>

lemma bitlen_bound: "n < 2 ^ k \<Longrightarrow> bitlen n \<le> k"
proof (induction k arbitrary: n)
  case 0
  then show ?case by (simp add: bitlen.simps)
next
  case (Suc k)
  show ?case
  proof (cases "n = 0")
    case True
    then show ?thesis by (simp add: bitlen.simps)
  next
    case False
    have "n div 2 < 2 ^ k" using Suc.prems by simp
    then have "bitlen (n div 2) \<le> k" by (rule Suc.IH)
    then show ?thesis using False by (subst bitlen.simps) simp
  qed
qed

lemma roundNat_exact: "n < 2 ^ 53 \<Longrightarrow> roundNat n = n"
  using bitlen_bound[of n 53] by (simp add: roundNat_def Let_def)

lemma roundDouble_exact: "\<bar>z\<bar> < 2 ^ 53 \<Longrightarrow> roundDouble z = Num z"
proof -
  assume a: "\<bar>z\<bar> < 2 ^ 53"
  then have n: "nat \<bar>z\<bar> < 2 ^ 53" by (simp add: nat_less_iff)
  have r: "roundNat (nat \<bar>z\<bar>) = nat \<bar>z\<bar>" using n by (rule roundNat_exact)
  have "(2::nat) ^ 53 < 2 ^ 1024" by simp
  then have lt: "\<not> nat \<bar>z\<bar> \<ge> 2 ^ 1024" using n by linarith
  show ?thesis using lt by (simp add: roundDouble_def r Let_def)
qed

lemma plus_number_exact:
  "\<bar>a + b\<bar> < 2 ^ 53 \<Longrightarrow> plus_number (Num a) (Num b) = Num (a + b)"
  by (simp add: roundDouble_exact)

lemma le_number_Num [simp]: "le_number (Num a) (Num b) = (a \<le> b)"
  by simp

text \<open>Rounding is monotone, so adding a length never decreases a double.\<close>

lemma roundNat_ge:
  assumes "m \<le> n" "roundNat m = m"
  shows "m \<le> roundNat n"
proof (cases "bitlen n - 53 = 0")
  case True
  then show ?thesis using assms by (simp add: roundNat_def Let_def)
next
  case False
  define s where "s = bitlen n - 53"
  define q where "q = n div 2 ^ s"
  have s: "s \<noteq> 0" using False by (simp add: s_def)
  have rn: "roundNat n = (if 2 * (n mod 2 ^ s) > 2 ^ s \<or> (2 * (n mod 2 ^ s) = 2 ^ s \<and> odd q)
                          then (q + 1) * 2 ^ s else q * 2 ^ s)"
    using s by (simp add: roundNat_def Let_def s_def q_def)
  show ?thesis
  proof (cases "m \<le> q * 2 ^ s")
    case True
    then show ?thesis unfolding rn by (auto intro: order_trans)
  next
    case False
    then have gt: "q * 2 ^ s < m" by simp
    text \<open>\<open>m\<close> lies strictly inside the interval of \<open>n\<close>, so it has as many bits as \<open>n\<close>.\<close>
    have nlt: "n < (q + 1) * 2 ^ s"
      unfolding q_def using div_mult_mod_eq[of n "2 ^ s"]
      by (metis add.commute mod_less_divisor mult.commute mult_Suc nat_add_left_cancel_less
          pos2 zero_less_power Suc_eq_plus1)
    have mlt: "m < (q + 1) * 2 ^ s" using assms(1) nlt by simp
    have mdiv: "m div 2 ^ s = q"
    proof -
      have "q \<le> m div 2 ^ s" using gt by (simp add: less_eq_div_iff_mult_less_eq less_imp_le)
      moreover have "m div 2 ^ s < q + 1" using mlt by (simp add: less_mult_imp_div_less)
      ultimately show ?thesis by simp
    qed
    have bl: "bitlen m = bitlen n"
    proof -
      have mono: "\<And>a b. a \<le> b \<Longrightarrow> bitlen a \<le> bitlen b"
      proof -
        fix a b :: nat
        show "a \<le> b \<Longrightarrow> bitlen a \<le> bitlen b"
        proof (induction b arbitrary: a rule: less_induct)
          case (less b)
          show ?case
          proof (cases "a = 0")
            case True
            then show ?thesis by (simp add: bitlen.simps)
          next
            case False
            then have b0: "b \<noteq> 0" using less.prems by simp
            have "a div 2 \<le> b div 2" using less.prems by (rule div_le_mono)
            moreover have "b div 2 < b" using b0 by simp
            ultimately have "bitlen (a div 2) \<le> bitlen (b div 2)" using less.IH by blast
            then show ?thesis using False b0 by (simp add: bitlen.simps[of a] bitlen.simps[of b])
          qed
        qed
      qed
      have shift: "\<And>a k. a div 2 ^ k \<noteq> 0 \<Longrightarrow> bitlen a = bitlen (a div 2 ^ k) + k"
      proof -
        fix a :: nat and k
        show "a div 2 ^ k \<noteq> 0 \<Longrightarrow> bitlen a = bitlen (a div 2 ^ k) + k"
        proof (induction k arbitrary: a)
          case 0
          then show ?case by simp
        next
          case (Suc k)
          have e: "a div 2 ^ Suc k = (a div 2) div 2 ^ k"
            by (simp add: div_mult2_eq)
          then have "(a div 2) div 2 ^ k \<noteq> 0" using Suc.prems by simp
          then have "bitlen (a div 2) = bitlen ((a div 2) div 2 ^ k) + k" by (rule Suc.IH)
          moreover have "a \<noteq> 0" using Suc.prems by (cases "a = 0") simp_all
          ultimately show ?case unfolding e by (simp add: bitlen.simps[of a])
        qed
      qed
      have q0: "q \<noteq> 0"
      proof
        assume "q = 0"
        then have "n < 2 ^ s" unfolding q_def by (simp add: div_eq_0_iff)
        then have "bitlen n \<le> s" by (rule bitlen_bound)
        then show False using s unfolding s_def by simp
      qed
      have "bitlen n = bitlen q + s" using shift[of n s] q0 unfolding q_def by simp
      moreover have "bitlen m = bitlen q + s" using shift[of m s] q0 mdiv by simp
      ultimately show ?thesis by simp
    qed
    have "roundNat m = (if 2 * (m mod 2 ^ s) > 2 ^ s \<or> (2 * (m mod 2 ^ s) = 2 ^ s \<and> odd q)
                          then (q + 1) * 2 ^ s else q * 2 ^ s)"
      using s by (simp add: roundNat_def Let_def bl s_def[symmetric] mdiv)
    then have "m = (q + 1) * 2 ^ s \<or> m = q * 2 ^ s" using assms(2) by (auto split: if_splits)
    then show ?thesis using gt mlt by auto
  qed
qed

section \<open>Paths: joining a directory and a proper name\<close>

text \<open>A proper name: a segment that names an entry of a directory.\<close>

definition properName :: "jsstring \<Rightarrow> bool" where
  "properName s \<longleftrightarrow> s \<noteq> [] \<and> slash \<notin> set s \<and> s \<noteq> [dot] \<and> s \<noteq> [dot, dot]"

lemma splitOn_nonempty: "splitOn c s \<noteq> []"
  by (induction s) (auto split: list.splits)

lemma splitOn_append: "splitOn c (a @ c # b) = splitOn c a @ splitOn c b"
proof (induction a)
  case Nil
  show ?case by simp
next
  case (Cons x a)
  obtain s ss where s: "splitOn c a = s # ss" using splitOn_nonempty[of c a] by (cases "splitOn c a") auto
  show ?case using Cons s by simp
qed

lemma splitOn_free: "c \<notin> set s \<Longrightarrow> splitOn c s = [s]"
  by (induction s) auto

lemma splitOn_segments: "s \<in> set (splitOn c p) \<Longrightarrow> c \<notin> set s"
proof (induction p arbitrary: s)
  case Nil
  then show ?case by simp
next
  case (Cons x p)
  obtain t ts where t: "splitOn c p = t # ts" using splitOn_nonempty[of c p] by (cases "splitOn c p") auto
  show ?case
  proof (cases "x = c")
    case True
    then show ?thesis using Cons by auto
  next
    case False
    then have "s = x # t \<or> s \<in> set ts" using Cons.prems t by simp
    then show ?thesis
    proof
      assume "s = x # t"
      moreover have "c \<notin> set t" using Cons.IH[of t] t by simp
      ultimately show ?thesis using False by simp
    next
      assume "s \<in> set ts"
      then show ?thesis using Cons.IH[of s] t by simp
    qed
  qed
qed

lemma joinWith_snoc:
  "joinWith c (xs @ [s]) = (if xs = [] then s else joinWith c xs @ c # s)"
  by (induction c xs rule: joinWith.induct) auto

lemma splitOn_joinWith:
  "segs \<noteq> [] \<Longrightarrow> \<forall>s \<in> set segs. c \<notin> set s \<Longrightarrow> splitOn c (joinWith c segs) = segs"
proof (induction c segs rule: joinWith.induct)
  case (1 c)
  then show ?case by simp
next
  case (2 c s)
  then show ?case by (simp add: splitOn_free)
next
  case (3 c s t ss)
  have "splitOn c (s @ c # joinWith c (t # ss)) = splitOn c s @ splitOn c (joinWith c (t # ss))"
    by (rule splitOn_append)
  then show ?case using 3 by (simp add: splitOn_free)
qed

lemma joinWith_nonempty:
  "segs \<noteq> [] \<Longrightarrow> \<forall>s \<in> set segs. s \<noteq> [] \<Longrightarrow> joinWith c segs \<noteq> []"
  by (induction c segs rule: joinWith.induct) auto

lemma joinWith_hd:
  "segs \<noteq> [] \<Longrightarrow> \<forall>s \<in> set segs. s \<noteq> [] \<Longrightarrow> hd (joinWith c segs) = hd (hd segs)"
  by (induction c segs rule: joinWith.induct) auto

lemma joinWith_last:
  "segs \<noteq> [] \<Longrightarrow> \<forall>s \<in> set segs. s \<noteq> [] \<Longrightarrow> last (joinWith c segs) = last (last segs)"
proof (induction c segs rule: joinWith.induct)
  case (3 c s t ss)
  have "joinWith c (t # ss) \<noteq> []" using 3(3) by (intro joinWith_nonempty) auto
  then show ?case using 3 by simp
qed auto

lemma walk_append: "walk cur (a @ b) = walk (walk cur a) b"
  by (induction a arbitrary: cur) auto

lemma walk_proper: "properName s \<Longrightarrow> walk cur [s] = cur @ [s]"
  by (simp add: properName_def)

lemma walk_skip: "walk cur ([] # segs) = walk cur segs" "walk cur (segs @ [[]]) = walk cur segs"
  by (simp_all add: walk_append)

text \<open>The segments \<open>normalizeString\<close> keeps.\<close>

lemma normalizeString_segments:
  assumes "s \<in> set (normalizeString aboveRoot xs res)"
  shows "s \<in> set res \<or> (s \<in> set xs \<and> s \<noteq> [] \<and> s \<noteq> [dot])"
  using assms
proof (induction xs arbitrary: res)
  case Nil
  then show ?case by simp
next
  case (Cons x xs)
  show ?case
  proof (cases "x = [] \<or> x = [dot]")
    case True
    then have "s \<in> set (normalizeString aboveRoot xs res)" using Cons.prems by auto
    from Cons.IH[OF this] show ?thesis by auto
  next
    case False
    show ?thesis
    proof (cases "x = [dot, dot]")
      case True
      have d: "[dot, dot] \<noteq> [] \<and> [dot, dot] \<noteq> [dot]" by simp
      consider (pop) "res \<noteq> [] \<and> hd res \<noteq> [dot, dot]"
        | (push) "\<not> (res \<noteq> [] \<and> hd res \<noteq> [dot, dot])" "aboveRoot"
        | (drop) "\<not> (res \<noteq> [] \<and> hd res \<noteq> [dot, dot])" "\<not> aboveRoot" by blast
      then show ?thesis
      proof cases
        case pop
        then have "s \<in> set (normalizeString aboveRoot xs (tl res))" using Cons.prems True d by simp
        from Cons.IH[OF this] show ?thesis using pop by (auto dest: list.set_sel(2))
      next
        case push
        then have "s \<in> set (normalizeString aboveRoot xs ([dot, dot] # res))" using Cons.prems True d by auto
        from Cons.IH[OF this] show ?thesis using True by auto
      next
        case drop
        then have "s \<in> set (normalizeString aboveRoot xs res)" using Cons.prems True d by auto
        from Cons.IH[OF this] show ?thesis by auto
      qed
    next
      case nd: False
      then have "s \<in> set (normalizeString aboveRoot xs (x # res))" using Cons.prems False by simp
      from Cons.IH[OF this] show ?thesis using False by auto
    qed
  qed
qed

lemma normalizeString_snoc:
  "properName s \<Longrightarrow> normalizeString aboveRoot (xs @ [s]) res = normalizeString aboveRoot xs res @ [s]"
  by (induction xs arbitrary: res) (auto simp: properName_def)

text \<open>Walking the normalized segments leads where walking the segments leads.\<close>

lemma walk_normalizeString_relative:
  assumes "\<forall>s \<in> set res. s \<noteq> [] \<and> s \<noteq> [dot]"
  shows "walk cur (normalizeString True xs res) = walk (walk cur (rev res)) xs"
  using assms
proof (induction xs arbitrary: res)
  case Nil
  show ?case by simp
next
  case (Cons x xs)
  show ?case
  proof (cases "x = [] \<or> x = [dot]")
    case True
    then show ?thesis using Cons by auto
  next
    case False
    show ?thesis
    proof (cases "x = [dot, dot]")
      case True
      have d: "[dot, dot] \<noteq> [] \<and> [dot, dot] \<noteq> [dot]" by simp
      show ?thesis
      proof (cases "res \<noteq> [] \<and> hd res \<noteq> [dot, dot]")
        case pop: True
        then obtain h t where r: "res = h # t" by (cases res) auto
        have h: "h \<noteq> [] \<and> h \<noteq> [dot] \<and> h \<noteq> [dot, dot]" using Cons.prems pop r by auto
        have t: "\<forall>s \<in> set t. s \<noteq> [] \<and> s \<noteq> [dot]" using Cons.prems r by auto
        have "walk cur (rev res) = walk cur (rev t) @ [h]" using h by (simp add: r walk_append)
        then have "butlast (walk cur (rev res)) = walk cur (rev t)" by simp
        then show ?thesis using Cons.IH[OF t] True d pop r by simp
      next
        case push: False
        have p: "\<forall>s \<in> set ([dot, dot] # res). s \<noteq> [] \<and> s \<noteq> [dot]" using Cons.prems by simp
        have "walk cur (rev ([dot, dot] # res)) = butlast (walk cur (rev res))"
          by (simp add: walk_append)
        then show ?thesis using Cons.IH[OF p] True d push by auto
      qed
    next
      case nd: False
      have p: "\<forall>s \<in> set (x # res). s \<noteq> [] \<and> s \<noteq> [dot]" using Cons.prems False by simp
      have "walk cur (rev (x # res)) = walk cur (rev res) @ [x]"
        using False nd by (simp add: walk_append)
      then show ?thesis using Cons.IH[OF p] False nd by simp
    qed
  qed
qed

lemma walk_normalizeString_absolute:
  assumes "\<forall>s \<in> set res. s \<noteq> [] \<and> s \<noteq> [dot] \<and> s \<noteq> [dot, dot]"
  shows "walk [] (normalizeString False xs res) = walk (walk [] (rev res)) xs"
  using assms
proof (induction xs arbitrary: res)
  case Nil
  show ?case by simp
next
  case (Cons x xs)
  show ?case
  proof (cases "x = [] \<or> x = [dot]")
    case True
    then show ?thesis using Cons by auto
  next
    case False
    show ?thesis
    proof (cases "x = [dot, dot]")
      case True
      have d: "[dot, dot] \<noteq> [] \<and> [dot, dot] \<noteq> [dot]" by simp
      show ?thesis
      proof (cases res)
        case Nil
        then show ?thesis using Cons.IH[of "[]"] True d by simp
      next
        case (Cons h t)
        have h: "h \<noteq> [] \<and> h \<noteq> [dot] \<and> h \<noteq> [dot, dot]" using Cons.prems Cons by auto
        have t: "\<forall>s \<in> set t. s \<noteq> [] \<and> s \<noteq> [dot] \<and> s \<noteq> [dot, dot]" using Cons.prems Cons by auto
        have "walk [] (rev res) = walk [] (rev t) @ [h]" using h by (simp add: Cons walk_append)
        then have "butlast (walk [] (rev res)) = walk [] (rev t)" by simp
        then show ?thesis using Cons.IH[OF t] True d h Cons by simp
      qed
    next
      case nd: False
      have p: "\<forall>s \<in> set (x # res). s \<noteq> [] \<and> s \<noteq> [dot] \<and> s \<noteq> [dot, dot]"
        using Cons.prems False nd by simp
      have "walk [] (rev (x # res)) = walk [] (rev res) @ [x]"
        using False nd by (simp add: walk_append)
      then show ?thesis using Cons.IH[OF p] False nd by simp
    qed
  qed
qed


text \<open>
  The text \<open>path.normalize\<close> returns: the kept segments joined by separators, between
  the leading and the trailing separator of the path.
\<close>

definition keptSegments :: "jsstring \<Rightarrow> jsstring list" where
  "keptSegments p = normalizeString (hd p \<noteq> slash) (splitOn slash p) []"

lemma keptSegments_props:
  assumes "s \<in> set (keptSegments p)"
  shows "s \<noteq> []" "s \<noteq> [dot]" "slash \<notin> set s"
proof -
  from assms have "s \<in> set (splitOn slash p) \<and> s \<noteq> [] \<and> s \<noteq> [dot]"
    unfolding keptSegments_def using normalizeString_segments[of s _ "splitOn slash p" "[]"] by auto
  then show "s \<noteq> []" "s \<noteq> [dot]" "slash \<notin> set s" by (auto dest: splitOn_segments)
qed

lemma path_normalize_text:
  assumes "p \<noteq> []"
  shows "path_normalize p =
     (if keptSegments p = [] then (if hd p = slash then [slash]
                                  else if last p = slash then [dot, slash] else [dot])
      else (if hd p = slash then [slash] else []) @ joinWith slash (keptSegments p)
           @ (if last p = slash then [slash] else []))"
proof -
  have "joinWith slash (keptSegments p) = [] \<longleftrightarrow> keptSegments p = []"
    using joinWith_nonempty[of "keptSegments p" slash] keptSegments_props(1)[of _ p] by auto
  then show ?thesis using assms by (simp add: path_normalize_def keptSegments_def[symmetric] Let_def)
qed

lemma walk_keptSegments:
  "walk (if hd p = slash then [] else c) (keptSegments p)
     = walk (if hd p = slash then [] else c) (splitOn slash p)"
proof (cases "hd p = slash")
  case True
  then show ?thesis
    using walk_normalizeString_absolute[of "[]" "splitOn slash p"] by (simp add: keptSegments_def)
next
  case False
  then show ?thesis
    using walk_normalizeString_relative[of "[]" c "splitOn slash p"] by (simp add: keptSegments_def)
qed

lemma resolvePath_via_kept:
  assumes "p \<noteq> []"
  shows "resolvePath m p = walk (if hd p = slash then [] else cwd m) (keptSegments p)"
  using assms walk_keptSegments[of p "cwd m"] by (simp add: resolvePath_def)

lemma slash_not_dot: "slash \<noteq> dot"
  by (simp add: slash_def dot_def)

lemma last_not_member: "s \<noteq> [] \<Longrightarrow> c \<notin> set s \<Longrightarrow> last s \<noteq> c"
  by (metis last_in_set)

lemma resolvePath_normalize:
  assumes "p \<noteq> []"
  shows "resolvePath m (path_normalize p) = resolvePath m p"
proof (cases "keptSegments p = []")
  case True
  have r: "resolvePath m p = (if hd p = slash then [] else cwd m)"
    using resolvePath_via_kept[OF assms] True by simp
  show ?thesis
    unfolding r path_normalize_text[OF assms] using True slash_not_dot
    by (auto simp: resolvePath_def)
next
  case False
  let ?k = "keptSegments p"
  let ?j = "joinWith slash ?k"
  have ne: "\<forall>s \<in> set ?k. s \<noteq> []" using keptSegments_props(1) by blast
  have fr: "\<forall>s \<in> set ?k. slash \<notin> set s" using keptSegments_props(3) by blast
  have j: "?j \<noteq> []" using joinWith_nonempty[OF False ne] .
  have "hd ?k \<in> set ?k" using False by simp
  then have "slash \<notin> set (hd ?k)" "hd ?k \<noteq> []" using fr ne by blast+
  then have "hd (hd ?k) \<noteq> slash" by (cases "hd ?k") auto
  then have hj: "hd ?j \<noteq> slash" using joinWith_hd[OF False ne] by simp
  have sp: "splitOn slash ?j = ?k" using splitOn_joinWith[OF False fr] .
  have sp': "splitOn slash (?j @ [slash]) = ?k @ [[]]"
    using splitOn_append[of slash ?j "[]"] sp by simp
  have r: "resolvePath m p = walk (if hd p = slash then [] else cwd m) ?k"
    by (rule resolvePath_via_kept[OF assms])
  show ?thesis
    unfolding r path_normalize_text[OF assms] using False j hj sp sp'
    by (auto simp: resolvePath_def walk_skip hd_append)
qed

text \<open>
  \<open>path.join\<close> of a directory and a path names what the path names from the
  directory.
\<close>

lemma resolvePath_join:
  assumes "a \<noteq> []"
  shows "resolvePath m (path_join a b) = walk (resolvePath m a) (splitOn slash b)"
proof (cases "b = []")
  case True
  then show ?thesis using assms by (simp add: path_join_def resolvePath_normalize)
next
  case False
  have "resolvePath m (path_join a b) = resolvePath m (a @ slash # b)"
    using assms False by (simp add: path_join_def resolvePath_normalize)
  also have "\<dots> = walk (resolvePath m a) (splitOn slash b)"
    using assms by (simp add: resolvePath_def splitOn_append walk_append)
  finally show ?thesis .
qed

lemma resolvePath_join_proper:
  assumes "a \<noteq> []" "properName s"
  shows "resolvePath m (path_join a s) = resolvePath m a @ [s]"
  using assms resolvePath_join[OF assms(1), of m s]
  by (simp add: properName_def splitOn_free)

text \<open>The text of the join of a directory and a proper name ends with the name.\<close>

definition joinPrefix :: "jsstring \<Rightarrow> jsstring" where
  "joinPrefix a =
     (if hd a = slash then [slash] else [])
     @ (if keptSegments a = [] then [] else joinWith slash (keptSegments a) @ [slash])"

lemma keptSegments_join_proper:
  assumes "a \<noteq> []" "properName s"
  shows "keptSegments (a @ slash # s) = keptSegments a @ [s]"
proof -
  have "splitOn slash (a @ slash # s) = splitOn slash a @ [s]"
    using assms(2) by (simp add: splitOn_append splitOn_free properName_def)
  then show ?thesis
    using assms by (simp add: keptSegments_def normalizeString_snoc)
qed

lemma path_join_proper:
  assumes "a \<noteq> []" "properName s"
  shows "path_join a s = joinPrefix a @ s"
proof -
  have s: "s \<noteq> []" "last s \<noteq> slash" using assms(2) by (auto simp: properName_def last_not_member)
  have p: "a @ slash # s \<noteq> []" by simp
  have k: "keptSegments (a @ slash # s) = keptSegments a @ [s]"
    by (rule keptSegments_join_proper[OF assms])
  have "path_join a s = path_normalize (a @ slash # s)" using assms s by (simp add: path_join_def)
  also have "\<dots> = joinPrefix a @ s"
    unfolding path_normalize_text[OF p] k using assms(1) s
    by (simp add: joinPrefix_def joinWith_snoc)
  finally show ?thesis .
qed

lemma properName_json: "s \<noteq> [] \<Longrightarrow> slash \<notin> set s \<Longrightarrow> properName (s @ js ''.json'')"
  by (auto simp: properName_def js_def slash_def dot_def)

lemma path_join_json:
  assumes "a \<noteq> []" "properName s"
  shows "path_join a s @ js ''.json'' = path_join a (s @ js ''.json'')"
proof -
  have "properName (s @ js ''.json'')" using assms(2) by (intro properName_json) (auto simp: properName_def)
  then show ?thesis using assms by (simp add: path_join_proper)
qed

lemma dirOnly_join_proper:
  assumes "a \<noteq> []" "properName s"
  shows "\<not> dirOnly (path_join a s)"
  using assms by (auto simp: path_join_proper dirOnly_def properName_def last_not_member)

text \<open>\<open>path.dirname\<close> of such a join names the directory.\<close>

lemma dropWhileEnd_keep: "xs \<noteq> [] \<Longrightarrow> \<not> P (last xs) \<Longrightarrow> dropWhileEnd P xs = xs"
proof -
  assume a: "xs \<noteq> []" "\<not> P (last xs)"
  then obtain y ys where r: "rev xs = y # ys" by (cases "rev xs") auto
  then have "y = last xs" using a(1) by (metis hd_rev list.sel(1))
  then have "dropWhile P (y # ys) = y # ys" using a(2) by simp
  then have "rev (dropWhile P (rev xs)) = rev (rev xs)" unfolding r by simp
  then show ?thesis by (simp add: dropWhileEnd_def)
qed

lemma in_set_dropWhileEnd: "x \<in> set (dropWhileEnd P xs) \<Longrightarrow> x \<in> set xs"
  by (auto simp: dropWhileEnd_def dest: set_dropWhileD)

lemma dropWhileEnd_append_all: "\<forall>x \<in> set ys. P x \<Longrightarrow> dropWhileEnd P (xs @ ys) = dropWhileEnd P xs"
proof -
  assume "\<forall>x \<in> set ys. P x"
  then have "\<And>x. x \<in> set (rev ys) \<Longrightarrow> P x" by simp
  then have "dropWhile P (rev ys @ rev xs) = dropWhile P (rev xs)" by (rule dropWhile_append2)
  then show ?thesis by (simp add: dropWhileEnd_def)
qed

lemma resolvePath_dirname_join:
  assumes "a \<noteq> []" "properName s"
  shows "resolvePath m (path_dirname (path_join a s)) = resolvePath m a"
proof -
  have s: "s \<noteq> []" "slash \<notin> set s" "last s \<noteq> slash"
    using assms(2) by (auto simp: properName_def last_not_member)
  let ?k = "keptSegments a"
  have ra: "resolvePath m a = walk (if hd a = slash then [] else cwd m) ?k"
    by (rule resolvePath_via_kept[OF assms(1)])
  show ?thesis
  proof (cases "?k = []")
    case True
    show ?thesis
    proof (cases "hd a = slash")
      case abs: True
      have "path_join a s = slash # s" using True abs by (simp add: path_join_proper[OF assms] joinPrefix_def)
      then have "path_dirname (path_join a s) = [slash]"
        using s by (simp add: path_dirname_def Let_def dropWhileEnd_keep)
      then show ?thesis using ra True abs by (simp add: resolvePath_def)
    next
      case rel: False
      have "path_join a s = s" using True rel by (simp add: path_join_proper[OF assms] joinPrefix_def)
      moreover have "slash \<notin> set (tl s)" using s by (cases s) auto
      then have "slash \<notin> set (dropWhileEnd (\<lambda>c. c = slash) (tl s))"
        using in_set_dropWhileEnd by fastforce
      moreover have "hd s \<noteq> slash" using s by (cases s) auto
      ultimately have "path_dirname (path_join a s) = [dot]"
        using s by (simp add: path_dirname_def Let_def)
      then show ?thesis using ra True rel slash_not_dot by (auto simp: resolvePath_def)
    qed
  next
    case False
    let ?j = "joinWith slash ?k"
    let ?A = "(if hd a = slash then [slash] else [])"
    have ne: "\<forall>s \<in> set ?k. s \<noteq> []" using keptSegments_props(1) by blast
    have fr: "\<forall>s \<in> set ?k. slash \<notin> set s" using keptSegments_props(3) by blast
    have j: "?j \<noteq> []" using joinWith_nonempty[OF False ne] .
    have "hd ?k \<in> set ?k" "last ?k \<in> set ?k" using False by simp_all
    then have "slash \<notin> set (hd ?k)" "hd ?k \<noteq> []" "slash \<notin> set (last ?k)" "last ?k \<noteq> []"
      using fr ne by blast+
    then have "hd (hd ?k) \<noteq> slash" "last (last ?k) \<noteq> slash"
      by (cases "hd ?k", auto simp: last_not_member)
    then have hj: "hd ?j \<noteq> slash" and lj: "last ?j \<noteq> slash"
      using joinWith_hd[OF False ne] joinWith_last[OF False ne] by simp_all
    have pj: "path_join a s = ?A @ ?j @ slash # s"
      using False by (simp add: path_join_proper[OF assms] joinPrefix_def)
    define q where "q = ?A @ ?j"
    have q: "q \<noteq> []" "last q \<noteq> slash" using j lj by (auto simp: q_def)
    have hq: "hd q = slash \<longleftrightarrow> hd a = slash" using hj j by (auto simp: q_def)
    have pq: "path_join a s = q @ slash # s" using pj by (simp add: q_def)
    have tlq: "tl (q @ slash # s) = tl q @ slash # s" using q by simp
    have st: "dropWhileEnd (\<lambda>c. c = slash) (tl q @ slash # s) = tl q @ slash # s"
      using s by (intro dropWhileEnd_keep) auto
    have "dropWhileEnd (\<lambda>c. c \<noteq> slash) ((tl q @ [slash]) @ s) = dropWhileEnd (\<lambda>c. c \<noteq> slash) (tl q @ [slash])"
      using s(2) by (intro dropWhileEnd_append_all) auto
    also have "\<dots> = tl q @ [slash]" by (intro dropWhileEnd_keep) auto
    finally have kp: "butlast (dropWhileEnd (\<lambda>c. c \<noteq> slash) (tl q @ slash # s)) = tl q" by simp
    have tq: "hd q = slash \<longrightarrow> tl q \<noteq> []" using j hj by (auto simp: q_def split: if_splits)
    have "path_dirname (q @ slash # s) = hd q # tl q"
      using q tq by (auto simp: path_dirname_def Let_def tlq st kp)
    then have d: "path_dirname (path_join a s) = q" using q pq by simp
    have sp: "splitOn slash ?j = ?k" using splitOn_joinWith[OF False fr] .
    have "resolvePath m q = walk (if hd a = slash then [] else cwd m) ?k"
      using j hj sp by (auto simp: resolvePath_def q_def walk_skip)
    then show ?thesis using ra d by simp
  qed
qed

lemma dirOnly_dirname_join:
  assumes "a \<noteq> []" "properName s" "dirOnly (path_dirname (path_join a s))"
  shows "resolvePath m a = []"
proof -
  have s: "s \<noteq> []" "slash \<notin> set s" "last s \<noteq> slash"
    using assms(2) by (auto simp: properName_def last_not_member)
  let ?k = "keptSegments a"
  have ra: "resolvePath m a = walk (if hd a = slash then [] else cwd m) ?k"
    by (rule resolvePath_via_kept[OF assms(1)])
  have r: "resolvePath m (path_dirname (path_join a s)) = resolvePath m a"
    by (rule resolvePath_dirname_join[OF assms(1,2)])
  let ?d = "path_dirname (path_join a s)"
  have "?d \<noteq> []" using assms(3) by (simp add: dirOnly_def)
  show ?thesis
  proof (cases "?k = []")
    case True
    show ?thesis
    proof (cases "hd a = slash")
      case abs: True
      then show ?thesis using ra True by simp
    next
      case rel: False
      have "path_join a s = s" using True rel by (simp add: path_join_proper[OF assms(1,2)] joinPrefix_def)
      moreover have "slash \<notin> set (tl s)" using s by (cases s) auto
      then have "slash \<notin> set (dropWhileEnd (\<lambda>c. c = slash) (tl s))"
        using in_set_dropWhileEnd by fastforce
      moreover have "hd s \<noteq> slash" using s by (cases s) auto
      ultimately have "?d = [dot]" using s by (simp add: path_dirname_def Let_def)
      then show ?thesis using assms(3) slash_not_dot by (simp add: dirOnly_def)
    qed
  next
    case False
    let ?j = "joinWith slash ?k"
    have ne: "\<forall>s \<in> set ?k. s \<noteq> []" using keptSegments_props(1) by blast
    have fr: "\<forall>s \<in> set ?k. slash \<notin> set s" using keptSegments_props(3) by blast
    have j: "?j \<noteq> []" using joinWith_nonempty[OF False ne] .
    have "last ?k \<in> set ?k" using False by simp
    then have "slash \<notin> set (last ?k)" "last ?k \<noteq> []" using fr ne by blast+
    then have "last (last ?k) \<noteq> slash" by (auto simp: last_not_member)
    then have lj: "last ?j \<noteq> slash" using joinWith_last[OF False ne] by simp
    have sp: "splitOn slash ?j = ?k" using splitOn_joinWith[OF False fr] .
    have hk: "hd ?k \<in> set ?k" using False by simp
    then have "slash \<notin> set (hd ?k)" "hd ?k \<noteq> []" using fr ne by blast+
    then have "hd (hd ?k) \<noteq> slash" by (cases "hd ?k") auto
    then have hj: "hd ?j \<noteq> slash" using joinWith_hd[OF False ne] by simp
    let ?A = "(if hd a = slash then [slash] else [])"
    define q where "q = ?A @ ?j"
    have q: "q \<noteq> []" "last q \<noteq> slash" using j lj by (auto simp: q_def)
    have pq: "path_join a s = q @ slash # s"
      using False by (simp add: path_join_proper[OF assms(1,2)] joinPrefix_def q_def)
    have tlq: "tl (q @ slash # s) = tl q @ slash # s" using q by simp
    have st: "dropWhileEnd (\<lambda>c. c = slash) (tl q @ slash # s) = tl q @ slash # s"
      using s by (intro dropWhileEnd_keep) auto
    have "dropWhileEnd (\<lambda>c. c \<noteq> slash) ((tl q @ [slash]) @ s) = dropWhileEnd (\<lambda>c. c \<noteq> slash) (tl q @ [slash])"
      using s(2) by (intro dropWhileEnd_append_all) auto
    also have "\<dots> = tl q @ [slash]" by (intro dropWhileEnd_keep) auto
    finally have kp: "butlast (dropWhileEnd (\<lambda>c. c \<noteq> slash) (tl q @ slash # s)) = tl q" by simp
    have tq: "hd q = slash \<longrightarrow> tl q \<noteq> []" using j hj by (auto simp: q_def split: if_splits)
    have "path_dirname (q @ slash # s) = hd q # tl q"
      using q tq by (auto simp: path_dirname_def Let_def tlq st kp)
    then have "?d = q" using q pq by simp
    then show ?thesis using assms(3) q by (simp add: dirOnly_def)
  qed
qed

section \<open>The machine: what the operations change\<close>

text \<open>Two machines with the same working directory, environment and faults.\<close>

definition sameEnv :: "machine \<Rightarrow> machine \<Rightarrow> bool" where
  "sameEnv m m' \<longleftrightarrow>
     cwd m' = cwd m \<and> STAGING_DIR m' = STAGING_DIR m \<and> MOUNT_PATH m' = MOUNT_PATH m \<and>
     fault m' = fault m"

lemma sameEnv_refl [simp]: "sameEnv m m"
  by (simp add: sameEnv_def)

lemma sameEnv_trans: "sameEnv m m' \<Longrightarrow> sameEnv m' m'' \<Longrightarrow> sameEnv m m''"
  by (simp add: sameEnv_def)

lemma sameEnv_nodes [simp]: "sameEnv m (m\<lparr>nodes := t\<rparr>)"
  by (simp add: sameEnv_def)


text \<open>The content of the regular file a path names.\<close>

definition fileAt :: "machine \<Rightarrow> jsstring \<Rightarrow> fdata option" where
  "fileAt m p = (case stat p m of Inr (File d) \<Rightarrow> Some d | _ \<Rightarrow> None)"

lemma lookupNode_update:
  "k \<noteq> [] \<Longrightarrow> lookupNode (m\<lparr>nodes := fmupd k v (nodes m)\<rparr>) k' = (if k' = k then Some v else lookupNode m k')"
  by (simp add: lookupNode_def)

lemma lookupNode_drop:
  "k \<noteq> [] \<Longrightarrow> lookupNode (m\<lparr>nodes := fmdrop k (nodes m)\<rparr>) k' = (if k' = k then None else lookupNode m k')"
  by (simp add: lookupNode_def)

lemma resolvePath_nodes [simp]: "resolvePath (m\<lparr>nodes := t\<rparr>) p = resolvePath m p"
  by (simp add: resolvePath_def)

lemma stagingDir_nodes [simp]: "stagingDir (m\<lparr>nodes := t\<rparr>) = stagingDir m"
  by (simp add: stagingDir_def)

lemma mountPath_nodes [simp]: "mountPath (m\<lparr>nodes := t\<rparr>) = mountPath m"
  by (simp add: mountPath_def)

lemma stat_file: "stat p m = Inr (File d) \<longleftrightarrow> lookupNode m (resolvePath m p) = Some (File d) \<and> \<not> dirOnly p"
  by (auto simp: stat_def split: option.splits node.splits)

lemma stat_file_key: "stat p m = Inr (File d) \<Longrightarrow> resolvePath m p \<noteq> []"
  by (auto simp: stat_def lookupNode_def split: option.splits node.splits if_splits)


lemma readFileSync_iff:
  "readFileSync p m = Inr d \<longleftrightarrow> fault m (OpRead p) = None \<and> stat p m = Inr (File d)"
  by (auto simp: readFileSync_def split: option.splits sum.splits node.splits)

lemma readFileSync_exists: "readFileSync p m = Inr d \<Longrightarrow> existsSync p m"
  by (auto simp: readFileSync_iff existsSync_def)

text \<open>A successful write leaves a regular file at the path and changes no other node.\<close>

lemma putFile_result:
  assumes "putFile p f m = Inr m'"
  shows "m' = m\<lparr>nodes := fmupd (resolvePath m p)
                   (File (f (case fileAt m p of None \<Rightarrow> [] | Some d \<Rightarrow> d))) (nodes m)\<rparr>"
    and "resolvePath m p \<noteq> []" and "\<not> dirOnly p"
proof -
  have k: "resolvePath m p \<noteq> []"
    using assms by (auto simp: putFile_def lookupNode_def Let_def split: option.splits node.splits if_splits)
  have d: "\<not> dirOnly p"
    using assms by (auto simp: putFile_def Let_def split: option.splits node.splits if_splits)
  show "resolvePath m p \<noteq> []" by (rule k)
  show "\<not> dirOnly p" by (rule d)
  show "m' = m\<lparr>nodes := fmupd (resolvePath m p)
                   (File (f (case fileAt m p of None \<Rightarrow> [] | Some d \<Rightarrow> d))) (nodes m)\<rparr>"
    using assms d
    by (auto simp: putFile_def fileAt_def stat_def Let_def split: option.splits node.splits if_splits)
qed

lemma putFile_effect:
  assumes "putFile p f m = Inr m'"
  shows "sameEnv m m'"
    and "fileAt m' p = Some (f (case fileAt m p of None \<Rightarrow> [] | Some d \<Rightarrow> d))"
    and "\<And>k. k \<noteq> resolvePath m p \<Longrightarrow> lookupNode m' k = lookupNode m k"
    and "lookupNode m' (resolvePath m p) = Some (File (f (case fileAt m p of None \<Rightarrow> [] | Some d \<Rightarrow> d)))"
proof -
  note r = putFile_result[OF assms]
  show "sameEnv m m'" by (subst r(1)) simp
  show l: "lookupNode m' (resolvePath m p) = Some (File (f (case fileAt m p of None \<Rightarrow> [] | Some d \<Rightarrow> d)))"
    by (subst r(1)) (simp add: lookupNode_update[OF r(2)])
  have "resolvePath m' p = resolvePath m p" by (subst r(1)) simp
  then show "fileAt m' p = Some (f (case fileAt m p of None \<Rightarrow> [] | Some d \<Rightarrow> d))"
    using l r(3) by (simp add: fileAt_def stat_def)
  show "\<And>k. k \<noteq> resolvePath m p \<Longrightarrow> lookupNode m' k = lookupNode m k"
    by (subst r(1)) (simp add: lookupNode_update[OF r(2)])
qed

lemma putFile_on_file:
  assumes "stat p m = Inr (File d)"
  shows "putFile p f m = Inr (m\<lparr>nodes := fmupd (resolvePath m p) (File (f d)) (nodes m)\<rparr>)"
  using assms by (auto simp: putFile_def stat_def Let_def split: option.splits node.splits if_splits)

lemma writeFileSync_effect:
  assumes "writeFileSync p d m = Inr m'"
  shows "sameEnv m m'" and "fileAt m' p = Some d"
    and "\<And>k. k \<noteq> resolvePath m p \<Longrightarrow> lookupNode m' k = lookupNode m k"
    and "lookupNode m' (resolvePath m p) = Some (File d)"
    and "resolvePath m p \<noteq> []" and "\<not> dirOnly p"
proof -
  from assms have p: "putFile p (\<lambda>old. d) m = Inr m'"
    by (auto simp: writeFileSync_def split: option.splits)
  show "sameEnv m m'" using putFile_effect(1)[OF p] .
  show "fileAt m' p = Some d" using putFile_effect(2)[OF p] .
  show "\<And>k. k \<noteq> resolvePath m p \<Longrightarrow> lookupNode m' k = lookupNode m k" using putFile_effect(3)[OF p] .
  show "lookupNode m' (resolvePath m p) = Some (File d)" using putFile_effect(4)[OF p] .
  show "resolvePath m p \<noteq> []" using putFile_result(2)[OF p] .
  show "\<not> dirOnly p" using putFile_result(3)[OF p] .
qed

lemma writeFileSync_on_file:
  assumes "fault m (OpWrite p) = None" "stat p m = Inr (File old)"
  shows "writeFileSync p d m = Inr (m\<lparr>nodes := fmupd (resolvePath m p) (File d) (nodes m)\<rparr>)"
  using assms by (simp add: writeFileSync_def putFile_on_file)

lemma appendFileSync_effect:
  assumes "appendFileSync p d m = Inr m'"
  shows "sameEnv m m'"
    and "fileAt m' p = Some ((case fileAt m p of None \<Rightarrow> [] | Some old \<Rightarrow> old) @ d)"
    and "\<And>k. k \<noteq> resolvePath m p \<Longrightarrow> lookupNode m' k = lookupNode m k"
    and "lookupNode m' (resolvePath m p)
           = Some (File ((case fileAt m p of None \<Rightarrow> [] | Some old \<Rightarrow> old) @ d))"
proof -
  from assms have p: "putFile p (\<lambda>old. old @ d) m = Inr m'"
    by (auto simp: appendFileSync_def split: option.splits)
  show "sameEnv m m'" using putFile_effect(1)[OF p] .
  show "fileAt m' p = Some ((case fileAt m p of None \<Rightarrow> [] | Some old \<Rightarrow> old) @ d)"
    using putFile_effect(2)[OF p] .
  show "\<And>k. k \<noteq> resolvePath m p \<Longrightarrow> lookupNode m' k = lookupNode m k" using putFile_effect(3)[OF p] .
  show "lookupNode m' (resolvePath m p)
           = Some (File ((case fileAt m p of None \<Rightarrow> [] | Some old \<Rightarrow> old) @ d))"
    using putFile_effect(4)[OF p] .
qed

lemma appendFileSync_on_file:
  assumes "fault m (OpAppend p) = None" "stat p m = Inr (File old)"
  shows "appendFileSync p d m = Inr (m\<lparr>nodes := fmupd (resolvePath m p) (File (old @ d)) (nodes m)\<rparr>)"
  using assms by (simp add: appendFileSync_def putFile_on_file)

lemma unlinkSync_on_file:
  assumes "fault m (OpUnlink p) = None" "stat p m = Inr (File d)"
  shows "unlinkSync p m = Inr (m\<lparr>nodes := fmdrop (resolvePath m p) (nodes m)\<rparr>)"
  using assms by (simp add: unlinkSync_def)

lemma unlinkSync_result:
  assumes "unlinkSync p m = Inr m'"
  shows "m' = m\<lparr>nodes := fmdrop (resolvePath m p) (nodes m)\<rparr>" and "resolvePath m p \<noteq> []"
    and "\<exists>d. stat p m = Inr (File d)"
  using assms stat_file_key[of p m]
  by (auto simp: unlinkSync_def split: option.splits sum.splits node.splits)





section \<open>Properties of the string functions\<close>

lemma sanitize_underscore: "\<not> filenameSanitizeRegex 0x5F"
  by (simp add: filenameSanitizeRegex_def)

lemma sanitize_idem: "sanitizeFilename (sanitizeFilename s) = sanitizeFilename s"
  by (simp add: sanitizeFilename_def sanitize_underscore)

lemma dropWhileEnd_snoc:
  "dropWhileEnd P (xs @ [x]) = (if P x then dropWhileEnd P xs else xs @ [x])"
  by (simp add: dropWhileEnd_def)

lemma dropWhileEnd_Nil [simp]: "dropWhileEnd P [] = []"
  by (simp add: dropWhileEnd_def)

lemma dropWhileEnd_last: "dropWhileEnd P xs \<noteq> [] \<Longrightarrow> \<not> P (last (dropWhileEnd P xs))"
  by (induction xs rule: rev_induct) (auto simp: dropWhileEnd_snoc)

lemma dropWhileEnd_id: "xs \<noteq> [] \<Longrightarrow> \<not> P (last xs) \<Longrightarrow> dropWhileEnd P xs = xs"
  by (cases xs rule: rev_cases) (auto simp: dropWhileEnd_snoc)

lemma dropWhileEnd_length: "length (dropWhileEnd P xs) \<le> length xs"
  by (simp add: dropWhileEnd_def) (metis length_dropWhile_le length_rev)

lemma dropWhileEnd_hd: "dropWhileEnd P xs \<noteq> [] \<Longrightarrow> hd (dropWhileEnd P xs) = hd xs"
  by (induction xs rule: rev_induct) (auto simp: dropWhileEnd_snoc hd_append split: if_splits)

lemma dropWhile_hd: "dropWhile P xs \<noteq> [] \<Longrightarrow> \<not> P (hd (dropWhile P xs))"
  by (metis hd_dropWhile)

lemma stripSlashes_shape:
  assumes "stripSlashes s \<noteq> []"
  shows "hd (stripSlashes s) \<noteq> slash \<and> last (stripSlashes s) \<noteq> slash"
proof -
  let ?d = "dropWhile (\<lambda>c. c = slash) s"
  from assms have ne: "dropWhileEnd (\<lambda>c. c = slash) ?d \<noteq> []" by (simp add: stripSlashes_def)
  have dne: "?d \<noteq> []" using ne dropWhileEnd_Nil by metis
  have "hd ?d \<noteq> slash" using dropWhile_hd[of "\<lambda>c. c = slash" s, OF dne] .
  moreover have "hd (dropWhileEnd (\<lambda>c. c = slash) ?d) = hd ?d" using ne by (rule dropWhileEnd_hd)
  moreover have "last (dropWhileEnd (\<lambda>c. c = slash) ?d) \<noteq> slash" using dropWhileEnd_last[OF ne] .
  ultimately show ?thesis by (simp add: stripSlashes_def)
qed

lemma endsWith_slash: "endsWith s [slash] \<longleftrightarrow> s \<noteq> [] \<and> last s = slash"
  by (cases s rule: rev_cases) (auto simp: endsWith_def)

lemma not_ws_slash: "\<not> isWhiteSpace slash"
  by (simp add: isWhiteSpace_def slash_def)

lemma normalize_shape:
  "normalizeDestinationPath p = [] \<or>
   (\<exists>q. q \<noteq> [] \<and> hd q \<noteq> slash \<and> last q \<noteq> slash \<and> normalizeDestinationPath p = q @ [slash])"
proof (cases p)
  case None then show ?thesis by (simp add: normalizeDestinationPath_def)
next
  case (Some s)
  show ?thesis
  proof (cases "s = [] \<or> stripSlashes (trim s) = []")
    case True then show ?thesis using Some by (auto simp: normalizeDestinationPath_def Let_def)
  next
    case False
    then have ne: "stripSlashes (trim s) \<noteq> []" by simp
    from stripSlashes_shape[OF ne] ne False Some show ?thesis
      by (auto simp: normalizeDestinationPath_def Let_def endsWith_slash)
  qed
qed

lemma normalize_ends_with_slash:
  "normalizeDestinationPath p \<noteq> [] \<Longrightarrow> last (normalizeDestinationPath p) = slash"
  using normalize_shape[of p] by auto

lemma normalize_of_shape:
  assumes "q \<noteq> []" "hd q \<noteq> slash" "last q \<noteq> slash"
  shows "\<not> isWhiteSpace (hd q) \<Longrightarrow> normalizeDestinationPath (Some (q @ [slash])) = q @ [slash]"
    and "isWhiteSpace (hd q) \<Longrightarrow> length (normalizeDestinationPath (Some (q @ [slash]))) < length (q @ [slash])"
proof -
  let ?t = "dropWhile isWhiteSpace q"
  have dw: "dropWhile isWhiteSpace (q @ [slash]) = ?t @ [slash]"
    by (induction q) (auto simp: not_ws_slash)
  have tr: "trim (q @ [slash]) = ?t @ [slash]"
    by (simp only: trim_def dw dropWhileEnd_snoc not_ws_slash if_False)
  have len: "length (stripSlashes (?t @ [slash])) \<le> length ?t"
  proof (cases "dropWhile (\<lambda>c. c = slash) ?t = []")
    case True
    then have "\<forall>x\<in>set ?t. x = slash" by (simp only: dropWhile_eq_Nil_conv)
    then have "dropWhile (\<lambda>c. c = slash) (?t @ [slash]) = []" by (simp only: dropWhile_eq_Nil_conv) simp
    then show ?thesis by (simp add: stripSlashes_def)
  next
    case False
    then obtain x where ex: "x \<in> set ?t" "\<not> x = slash" by (simp only: dropWhile_eq_Nil_conv) blast
    have "dropWhile (\<lambda>c. c = slash) (?t @ [slash]) = dropWhile (\<lambda>c. c = slash) ?t @ [slash]"
      using ex by (rule dropWhile_append1)
    then have "stripSlashes (?t @ [slash]) = dropWhileEnd (\<lambda>c. c = slash) (dropWhile (\<lambda>c. c = slash) ?t)"
      by (simp add: stripSlashes_def dropWhileEnd_snoc)
    moreover have "length (dropWhileEnd (\<lambda>c. c = slash) (dropWhile (\<lambda>c. c = slash) ?t))
          \<le> length (dropWhile (\<lambda>c. c = slash) ?t)" by (rule dropWhileEnd_length)
    moreover have "length (dropWhile (\<lambda>c. c = slash) ?t) \<le> length ?t" by (rule length_dropWhile_le)
    ultimately show ?thesis by simp
  qed
  show "isWhiteSpace (hd q) \<Longrightarrow> length (normalizeDestinationPath (Some (q @ [slash]))) < length (q @ [slash])"
  proof -
    assume ws: "isWhiteSpace (hd q)"
    obtain a q' where q: "q = a # q'" using assms(1) by (cases q) auto
    have "length (dropWhile isWhiteSpace q') \<le> length q'" by (rule length_dropWhile_le)
    then have lt: "length ?t < length q" using ws q by simp
    have "length (normalizeDestinationPath (Some (q @ [slash]))) \<le> length (stripSlashes (?t @ [slash])) + 1"
      by (simp add: normalizeDestinationPath_def Let_def tr)
    then show ?thesis using len lt by simp
  qed
  show "\<not> isWhiteSpace (hd q) \<Longrightarrow> normalizeDestinationPath (Some (q @ [slash])) = q @ [slash]"
  proof -
    assume nws: "\<not> isWhiteSpace (hd q)"
    obtain a q' where q: "q = a # q'" using assms(1) by (cases q) auto
    have t: "?t = q" using nws q by simp
    have "dropWhile (\<lambda>c. c = slash) (q @ [slash]) = q @ [slash]"
      using assms(2) q by simp
    then have "stripSlashes (q @ [slash]) = q"
      using assms by (simp add: stripSlashes_def dropWhileEnd_snoc dropWhileEnd_id)
    then show ?thesis using assms by (simp add: normalizeDestinationPath_def Let_def tr t endsWith_slash)
  qed
qed

lemma normalize_idem_iff:
  "normalizeDestinationPath (Some (normalizeDestinationPath p)) = normalizeDestinationPath p
     \<longleftrightarrow> normalizeDestinationPath p = [] \<or> \<not> isWhiteSpace (hd (normalizeDestinationPath p))"
proof (cases "normalizeDestinationPath p = []")
  case True then show ?thesis by (simp add: normalizeDestinationPath_def)
next
  case False
  with normalize_shape[of p] obtain q where q: "q \<noteq> []" "hd q \<noteq> slash" "last q \<noteq> slash"
     "normalizeDestinationPath p = q @ [slash]" by auto
  have hd: "hd (q @ [slash]) = hd q" using q(1) by simp
  show ?thesis
  proof (cases "isWhiteSpace (hd q)")
    case True
    from normalize_of_shape(2)[OF q(1,2,3) True] have
      "normalizeDestinationPath (Some (q @ [slash])) \<noteq> q @ [slash]" by auto
    then show ?thesis using True q(4) hd by simp
  next
    case False
    from normalize_of_shape(1)[OF q(1,2,3) False] show ?thesis using False q(4) hd by simp
  qed
qed


section \<open>Properties of the partitioning policy and of the batch selection\<close>

lemma ceil_bracket:
  fixes n d :: nat
  assumes "0 < d" "0 < n"
  shows "(nat \<lceil>real n / real d\<rceil> - 1) * d < n \<and> n \<le> nat \<lceil>real n / real d\<rceil> * d"
proof -
  define c where "c = \<lceil>real n / real d\<rceil>"
  define k where "k = nat c"
  have dpos: "0 < real d" using assms(1) by simp
  have pos: "0 < real n / real d" using assms by simp
  have up: "real n / real d \<le> of_int c" unfolding c_def by (rule le_of_int_ceiling)
  have lo: "of_int c - 1 < real n / real d" unfolding c_def using ceiling_correct[of "real n / real d"] by simp
  from pos up have "(0::real) < of_int c" by (rule less_le_trans)
  then have c1: "1 \<le> c" by simp
  then have ck: "of_int c = real k" and k1: "1 \<le> k" by (simp_all add: k_def)
  have km: "real (k - 1) = real k - 1" using k1 by (simp add: of_nat_diff)
  from up have "real n \<le> real k * real d" by (simp only: pos_divide_le_eq[OF dpos] ck)
  then have "real n \<le> real (k * d)" by simp
  then have A: "n \<le> k * d" by (simp only: of_nat_le_iff)
  from lo have "(real k - 1) * real d < real n" by (simp only: pos_less_divide_eq[OF dpos] ck)
  then have "real ((k - 1) * d) < real n" by (simp only: km[symmetric] of_nat_mult)
  then have B: "(k - 1) * d < n" by (simp only: of_nat_less_iff)
  from A B show ?thesis by (simp only: k_def c_def)
qed

lemma getPartCount_mid:
  assumes "512 * MB < s" "s \<le> 4096 * MB"
  shows "getPartCount s = nat \<lceil>real s / real (512 * MB)\<rceil>"
    and "(getPartCount s - 1) * (512 * MB) < s" and "s \<le> getPartCount s * (512 * MB)"
    and "2 \<le> getPartCount s" and "getPartCount s \<le> 8"
proof -
  show e: "getPartCount s = nat \<lceil>real s / real (512 * MB)\<rceil>"
    using assms by (simp add: getPartCount_def)
  have d: "0 < 512 * MB" by (simp add: MB_def)
  have s: "0 < s" using assms(1) by simp
  from ceil_bracket[OF d s] e
  show b1: "(getPartCount s - 1) * (512 * MB) < s" and b2: "s \<le> getPartCount s * (512 * MB)" by simp_all
  show "2 \<le> getPartCount s"
  proof (rule ccontr)
    assume "\<not> 2 \<le> getPartCount s"
    then have "getPartCount s * (512 * MB) \<le> 1 * (512 * MB)" by (intro mult_le_mono1) simp
    with b2 assms(1) show False by simp
  qed
  show "getPartCount s \<le> 8"
  proof (rule ccontr)
    assume "\<not> getPartCount s \<le> 8"
    then have "8 \<le> getPartCount s - 1" by simp
    then have "8 * (512 * MB) \<le> (getPartCount s - 1) * (512 * MB)" by (intro mult_le_mono1)
    also note b1
    also note assms(2)
    finally show False by simp
  qed
qed


lemma backtrack_over: "m < ct \<Longrightarrow> backtrack m cb rf ct si b = b"
  by (subst backtrack.simps) simp

lemma backtrack_under:
  "\<not> m < ct \<Longrightarrow> backtrack m cb rf ct si b =
     backtrack_for m cb rf ct si (if bestTotal b < ct then \<lparr>bestBatch = cb, bestTotal = ct\<rparr> else b)"
  by (subst backtrack.simps) simp

lemma for_done: "\<not> i < length rf \<Longrightarrow> backtrack_for m cb rf ct i b = b"
  by (subst backtrack_for.simps) simp

lemma for_take:
  "i < length rf \<Longrightarrow> ct + parts (rf ! i) \<le> m \<Longrightarrow>
   backtrack_for m cb rf ct i b =
     backtrack_for m cb rf ct (i + 1) (backtrack m (cb @ [rf ! i]) rf (ct + parts (rf ! i)) (i + 1) b)"
  by (subst backtrack_for.simps) (simp add: Let_def)

lemma for_skip:
  "i < length rf \<Longrightarrow> \<not> ct + parts (rf ! i) \<le> m \<Longrightarrow>
   backtrack_for m cb rf ct i b = backtrack_for m cb rf ct (i + 1) b"
  by (subst backtrack_for.simps) (simp add: Let_def)

lemma backtrack_mono:
  "bestTotal b \<le> bestTotal (backtrack m cb rf ct si b)"
  "bestTotal b \<le> bestTotal (backtrack_for m cb rf ct i b)"
proof (induction m cb rf ct si b and m cb rf ct i b rule: backtrack_backtrack_for.induct)
  case (1 m cb rf ct si b)
  show ?case
  proof (cases "m < ct")
    case True then show ?thesis by (simp add: backtrack_over)
  next
    case False
    have "bestTotal b \<le> bestTotal (if bestTotal b < ct then \<lparr>bestBatch = cb, bestTotal = ct\<rparr> else b)"
      by simp
    also note 1[OF False]
    finally show ?thesis by (simp only: backtrack_under[OF False])
  qed
next
  case (2 m cb rf ct i b)
  show ?case
  proof (cases "i < length rf")
    case False then show ?thesis by (simp add: for_done)
  next
    case True
    note IH1 = 2(1)[OF True refl refl] and IH2 = 2(2)[OF True refl refl]
    show ?thesis
    proof (cases "ct + parts (rf ! i) \<le> m")
      case le: True
      note IH1[OF le]
      also note IH2[unfolded if_P[OF le]]
      finally show ?thesis by (simp only: for_take[OF True le])
    next
      case gt: False
      from IH2[unfolded if_not_P[OF gt]] show ?thesis by (simp only: for_skip[OF True gt])
    qed
  qed
qed

definition best_ok :: "nat \<Rightarrow> FileWithParts list \<Rightarrow> best \<Rightarrow> bool" where
  "best_ok m rf b \<longleftrightarrow> bestTotal b = total (bestBatch b) \<and> bestTotal b \<le> m \<and> subseq (bestBatch b) rf"

lemma subseq_take_full: "subseq cb (take i rf) \<Longrightarrow> subseq cb rf"
proof -
  assume "subseq cb (take i rf)"
  then have "subseq cb (take i rf @ drop i rf)" by (rule subseq_rev_drop_many)
  then show ?thesis by simp
qed

lemma take_Suc_subseq: "i < length rf \<Longrightarrow> subseq cb (take i rf) \<Longrightarrow> subseq (cb @ [rf ! i]) (take (Suc i) rf)"
  by (simp add: take_Suc_conv_app_nth list_emb_append_mono)

lemma take_Suc_subseq': "subseq cb (take i rf) \<Longrightarrow> subseq cb (take (Suc i) rf)"
proof (cases "i < length rf")
  case True
  assume "subseq cb (take i rf)"
  then have "subseq cb (take i rf @ [rf ! i])" by (rule subseq_rev_drop_many)
  then show ?thesis using True by (simp add: take_Suc_conv_app_nth)
next
  case False
  assume "subseq cb (take i rf)"
  then show ?thesis using False by simp
qed

lemma backtrack_ok:
  "best_ok m rf b \<Longrightarrow> ct = total cb \<Longrightarrow> subseq cb (take si rf) \<Longrightarrow>
     best_ok m rf (backtrack m cb rf ct si b)"
  "best_ok m rf b \<Longrightarrow> ct = total cb \<Longrightarrow> subseq cb (take i rf) \<Longrightarrow>
     best_ok m rf (backtrack_for m cb rf ct i b)"
proof (induction m cb rf ct si b and m cb rf ct i b rule: backtrack_backtrack_for.induct)
  case (1 m cb rf ct si b)
  show ?case
  proof (cases "m < ct")
    case True with 1(2) show ?thesis by (simp add: backtrack_over)
  next
    case False
    have sub: "subseq cb rf" using 1(4) by (rule subseq_take_full)
    have "best_ok m rf (if bestTotal b < ct then \<lparr>bestBatch = cb, bestTotal = ct\<rparr> else b)"
      using 1(2,3) False sub by (simp add: best_ok_def)
    from 1(1)[OF False this 1(3) 1(4)] show ?thesis by (simp only: backtrack_under[OF False])
  qed
next
  case (2 m cb rf ct i b)
  show ?case
  proof (cases "i < length rf")
    case False with 2(3) show ?thesis by (simp add: for_done)
  next
    case True
    note IH1 = 2(1)[OF True refl refl] and IH2 = 2(2)[OF True refl refl]
    have s': "subseq cb (take (i + 1) rf)" using take_Suc_subseq'[OF 2(5)] by simp
    show ?thesis
    proof (cases "ct + parts (rf ! i) \<le> m")
      case le: True
      have e: "ct + parts (rf ! i) = total (cb @ [rf ! i])" using 2(4) by simp
      have s2: "subseq (cb @ [rf ! i]) (take (i + 1) rf)"
        using take_Suc_subseq[OF True 2(5)] by simp
      have "best_ok m rf (backtrack m (cb @ [rf ! i]) rf (ct + parts (rf ! i)) (i + 1) b)"
        by (rule IH1[OF le 2(3) e s2])
      from IH2[unfolded if_P[OF le], OF this 2(4) s'] show ?thesis
        by (simp only: for_take[OF True le])
    next
      case gt: False
      from IH2[unfolded if_not_P[OF gt], OF 2(3) 2(4) s'] show ?thesis
        by (simp only: for_skip[OF True gt])
    qed
  qed
qed

lemma backtrack_complete:
  "subseq B (drop si rf) \<Longrightarrow> ct + total B \<le> m \<Longrightarrow>
     ct + total B \<le> bestTotal (backtrack m cb rf ct si b)"
  "subseq B (drop i rf) \<Longrightarrow> B \<noteq> [] \<Longrightarrow> ct + total B \<le> m \<Longrightarrow>
     ct + total B \<le> bestTotal (backtrack_for m cb rf ct i b)"
proof (induction m cb rf ct si b and m cb rf ct i b arbitrary: B and B rule: backtrack_backtrack_for.induct)
  case (1 m cb rf ct si b)
  from 1(3) have nle: "\<not> m < ct" by simp
  let ?b' = "if bestTotal b < ct then \<lparr>bestBatch = cb, bestTotal = ct\<rparr> else b"
  have res: "backtrack m cb rf ct si b = backtrack_for m cb rf ct si ?b'"
    by (rule backtrack_under[OF nle])
  show ?case
  proof (cases "B = []")
    case True
    have "ct \<le> bestTotal ?b'" by simp
    also have "\<dots> \<le> bestTotal (backtrack_for m cb rf ct si ?b')" by (rule backtrack_mono)
    finally show ?thesis using True by (simp only: res) simp
  next
    case False
    from 1(1)[OF nle 1(2) False 1(3)] show ?thesis by (simp only: res)
  qed
next
  case (2 m cb rf ct i b)
  have True: "i < length rf"
  proof (rule ccontr)
    assume "\<not> i < length rf"
    then have "drop i rf = []" by simp
    with 2(3,4) show False by simp
  qed
  note IH1 = 2(1)[OF True refl refl] and IH2 = 2(2)[OF True refl refl]
  let ?x = "rf ! i"
  have dr: "drop i rf = ?x # drop (i + 1) rf"
    using True by (simp add: Cons_nth_drop_Suc)
  obtain y B' where B: "B = y # B'" using 2(4) by (cases B) auto
  show ?case
  proof (cases "y = ?x \<and> subseq B' (drop (i + 1) rf)")
    case yes: True
    then have le: "ct + parts ?x \<le> m" using 2(5) B by simp
    have "ct + total B = (ct + parts ?x) + total B'" using yes B by simp
    also have "\<dots> \<le> bestTotal (backtrack m (cb @ [?x]) rf (ct + parts ?x) (i + 1) b)"
    proof (rule IH1[OF le])
      show "subseq B' (drop (i + 1) rf)" using yes by simp
      show "ct + parts ?x + total B' \<le> m" using 2(5) B yes by simp
    qed
    also have "\<dots> \<le> bestTotal (backtrack_for m cb rf ct (i + 1)
          (backtrack m (cb @ [?x]) rf (ct + parts ?x) (i + 1) b))" by (rule backtrack_mono)
    finally show ?thesis by (simp only: for_take[OF True le])
  next
    case no: False
    have sub: "subseq B (drop (i + 1) rf)"
    proof (cases "y = ?x")
      case True
      with no have "\<not> subseq B' (drop (i + 1) rf)" by simp
      moreover from 2(3) have "subseq (y # B') (?x # drop (i + 1) rf)" by (simp only: dr B)
      ultimately show ?thesis using True B by simp
    next
      case False
      from 2(3) have "subseq (y # B') (?x # drop (i + 1) rf)" by (simp only: dr B)
      then show ?thesis using False B by simp
    qed
    show ?thesis
    proof (cases "ct + parts ?x \<le> m")
      case le: True
      have "ct + total B \<le> bestTotal (backtrack_for m cb rf ct (i + 1)
          (backtrack m (cb @ [?x]) rf (ct + parts ?x) (i + 1) b))"
        using IH2[unfolded if_P[OF le], OF sub 2(4) 2(5)] .
      then show ?thesis by (simp only: for_take[OF True le])
    next
      case gt: False
      from IH2[unfolded if_not_P[OF gt], OF sub 2(4) 2(5)] show ?thesis
        by (simp only: for_skip[OF True gt])
    qed
  qed
qed

lemma findOptimalBatch_ok:
  "subseq (findOptimalBatch pending m) pending \<and> total (findOptimalBatch pending m) \<le> m"
proof (cases "length pending = 0")
  case True then show ?thesis by (simp add: findOptimalBatch_def)
next
  case False
  have "best_ok m pending \<lparr>bestBatch = [], bestTotal = 0\<rparr>" by (simp add: best_ok_def)
  then have "best_ok m pending (backtrack m [] pending 0 0 \<lparr>bestBatch = [], bestTotal = 0\<rparr>)"
    by (rule backtrack_ok) simp_all
  then show ?thesis using False by (simp add: findOptimalBatch_def best_ok_def)
qed

lemma findOptimalBatch_optimal:
  assumes "subseq B pending" "total B \<le> m"
  shows "total B \<le> total (findOptimalBatch pending m)"
proof (cases "length pending = 0")
  case True
  with assms(1) have "B = []" by (cases B) auto
  then show ?thesis by simp
next
  case False
  let ?r = "backtrack m [] pending 0 0 \<lparr>bestBatch = [], bestTotal = 0\<rparr>"
  have "best_ok m pending \<lparr>bestBatch = [], bestTotal = 0\<rparr>" by (simp add: best_ok_def)
  then have ok: "best_ok m pending ?r"
    by (rule backtrack_ok) simp_all
  have "0 + total B \<le> bestTotal ?r"
    by (rule backtrack_complete) (use assms in simp_all)
  then show ?thesis using ok False by (simp add: findOptimalBatch_def best_ok_def)
qed

section \<open>Properties of the endpoint\<close>

text \<open>The two paths \<open>filePath\<close> and \<open>metadataPath\<close> the handlers compute for an upload.\<close>

definition payloadPath :: "machine \<Rightarrow> jsstring \<Rightarrow> jsstring" where
  "payloadPath m uploadId = path_join (stagingDir m) uploadId"

definition sidecarPath :: "machine \<Rightarrow> jsstring \<Rightarrow> jsstring" where
  "sidecarPath m uploadId = path_join (stagingDir m) (uploadId @ js ''.json'')"

text \<open>The response 204 of \<open>PATCH\<close>, without the header \<open>Upload-Complete\<close>.\<close>

definition accepted :: "number option \<Rightarrow> response" where
  "accepted off = (respond 204 NoBody)\<lparr>Tus_Resumable := Some (js ''1.0.0''), Upload_Offset := off\<rparr>"

text \<open>The object \<open>uploadInfo\<close> after \<open>uploadInfo.offset += buffer.length\<close>.\<close>

definition advanced :: "UploadInfo \<Rightarrow> patch_request \<Rightarrow> UploadInfo" where
  "advanced info req =
     info\<lparr>offset_u := Some (plus_number (numberOf (offset_u info)) (Num (int (length (p_body req)))))\<rparr>"

text \<open>
  A request passes the checks of \<open>PATCH\<close> on the upload \<open>uploadId\<close>, whose sidecar
  parses to \<open>info\<close>, and its append and its sidecar rewrite succeed; \<open>m2\<close> is the machine
  after them, before the completion check.
\<close>

definition patch_accepts ::
  "patch_request \<Rightarrow> server \<Rightarrow> jsstring \<Rightarrow> UploadInfo \<Rightarrow> machine \<Rightarrow> bool" where
  "patch_accepts req st uploadId info m2 \<longleftrightarrow>
     p_uploadId req = Some uploadId \<and> uploadId \<noteq> [] \<and>
     truthy (p_upload_offset req) \<and>
     p_content_type req = Some (js ''application/offset+octet-stream'') \<and>
     (case readFileSync (sidecarPath (disk st) uploadId) (disk st) of
        Inl e \<Rightarrow> False
      | Inr text \<Rightarrow> JSON_parse text = Inr info) \<and>
     sameNumber (parseIntOpt (p_upload_offset req)) (offset_u info) \<and>
     (case appendBody (payloadPath (disk st) uploadId) (p_body req) (disk st) of
        Inl e \<Rightarrow> False
      | Inr m1 \<Rightarrow>
          writeFileSync (sidecarPath (disk st) uploadId) (JSON_stringify (advanced info req)) m1
          = Inr m2)"

lemma PATCH_accepted:
  assumes "patch_accepts req st uploadId info m2"
  shows "PATCH req st =
     (if le_number (numberOf (size_u info)) (numberOf (offset_u (advanced info req)))
      then (case handleUploadComplete uploadId (advanced info req) (st\<lparr>disk := m2\<rparr>) of
              None \<Rightarrow> None
            | Some (Inl e, st') \<Rightarrow> Some (respond 500 (ErrorText (js ''Internal server error'')), st')
            | Some (Inr isFileComplete, st') \<Rightarrow>
                Some (if isFileComplete
                      then (accepted (offset_u (advanced info req)))\<lparr>Upload_Complete := Some (js ''true'')\<rparr>
                      else accepted (offset_u (advanced info req)), st'))
      else Some (accepted (offset_u (advanced info req)), st\<lparr>disk := m2\<rparr>))"
proof -
  from assms obtain uploadOffset content m1 where
    id: "p_uploadId req = Some uploadId" "uploadId \<noteq> []"
    and hdr: "p_upload_offset req = Some uploadOffset" "uploadOffset \<noteq> []"
    and ct: "p_content_type req = Some (js ''application/offset+octet-stream'')"
    and rd: "readFileSync (sidecarPath (disk st) uploadId) (disk st) = Inr content"
    and js: "JSON_parse content = Inr info"
    and same: "sameNumber (parseInt uploadOffset) (offset_u info)"
    and app: "appendBody (payloadPath (disk st) uploadId) (p_body req) (disk st) = Inr m1"
    and wr: "writeFileSync (sidecarPath (disk st) uploadId) (JSON_stringify (advanced info req)) m1
             = Inr m2"
    by (auto simp: patch_accepts_def truthy_def parseIntOpt_def split: option.splits sum.splits)
  have ex: "existsSync (sidecarPath (disk st) uploadId) (disk st)"
    using rd by (rule readFileSync_exists)
  have t: "PATCH req st =
      (case PATCH_try uploadId uploadOffset (p_body req) st of
         None \<Rightarrow> None
       | Some (Inl e, st') \<Rightarrow> Some (respond 500 (ErrorText (js ''Internal server error'')), st')
       | Some (Inr resp, st') \<Rightarrow> Some (resp, st'))"
    using id hdr ct ex by (simp add: PATCH_def truthy_def orElse_def sidecarPath_def)
  have rd': "readFileSync (path_join (stagingDir (disk st)) (uploadId @ js ''.json'')) (disk st) = Inr content"
    using rd by (simp add: sidecarPath_def)
  have app': "appendBody (path_join (stagingDir (disk st)) uploadId) (p_body req) (disk st) = Inr m1"
    using app by (simp add: payloadPath_def)
  have wr': "writeFileSync (path_join (stagingDir (disk st)) (uploadId @ js ''.json''))
      (JSON_stringify (info\<lparr>offset_u := Some (plus_number (numberOf (offset_u info))
                                                  (Num (int (length (p_body req)))))\<rparr>)) m1 = Inr m2"
    using wr by (simp add: sidecarPath_def advanced_def)
  show ?thesis
    unfolding t
    by (simp add: PATCH_try_def rd' js same app' wr' Let_def accepted_def advanced_def
        split: prod.splits sum.splits option.splits)
qed



lemma PATCH_mismatch:
  assumes "p_uploadId req = Some uploadId" "uploadId \<noteq> []"
    and rd: "readFileSync (sidecarPath (disk st) uploadId) (disk st) = Inr text"
    and js: "JSON_parse text = Inr info"
    and ne: "\<not> sameNumber (parseIntOpt (p_upload_offset req)) (offset_u info)"
  shows "PATCH req st =
     Some (if \<not> truthy (p_upload_offset req) then respond 400 (ErrorText (js ''Missing Upload-Offset header''))
           else if p_content_type req \<noteq> Some (js ''application/offset+octet-stream'')
           then respond 400 (ErrorText (js ''Invalid Content-Type''))
           else respond 409 (ErrorText (js ''Offset mismatch'')), st)"
proof -
  have ex: "existsSync (path_join (stagingDir (disk st)) (uploadId @ js ''.json'')) (disk st)"
    using readFileSync_exists[OF rd] by (simp add: sidecarPath_def)
  have rd': "readFileSync (path_join (stagingDir (disk st)) (uploadId @ js ''.json'')) (disk st) = Inr text"
    using rd by (simp add: sidecarPath_def)
  have ne': "truthy (p_upload_offset req) \<Longrightarrow>
      \<not> sameNumber (parseInt (orElse (p_upload_offset req) [])) (offset_u info)"
    using ne by (auto simp: truthy_def orElse_def parseIntOpt_def split: option.splits)
  have t: "truthy (p_upload_offset req) \<Longrightarrow>
      PATCH_try uploadId (orElse (p_upload_offset req) []) (p_body req) st
        = Some (Inr (respond 409 (ErrorText (js ''Offset mismatch''))), st)"
    using ne' by (simp add: PATCH_try_def rd' js Let_def)
  show ?thesis
    using assms(1,2) ex t by (simp add: PATCH_def truthy_def orElse_def)
qed

lemma HEAD_reports:
  assumes "uploadId \<noteq> []"
    and "readFileSync (sidecarPath (disk st) uploadId) (disk st) = Inr text"
    and "JSON_parse text = Inr info"
    and "offset_u info = Some off" "size_u info = Some sz"
  shows "HEAD (Some uploadId) st =
     (respond 200 NoBody)\<lparr>Tus_Resumable := Some (js ''1.0.0''), Upload_Offset := Some off,
        Upload_Length := Some sz, Cache_Control := Some (js ''no-store'')\<rparr>"
  using assms readFileSync_exists[OF assms(2)]
  by (simp add: HEAD_def truthy_def orElse_def sidecarPath_def Let_def)



section \<open>Properties of the file names\<close>






lemma getUniqueFilename_free:
  assumes "ensureDir dir m = Inr m1" "\<not> existsSync (path_join dir name) m1"
  shows "getUniqueFilename name dir m = Some (Inr name, m1)"
proof -
  have "getUniqueFilename_while m1 dir (basename name (extname name)) (extname name) 1 name = Some name"
    using assms(2) by (subst getUniqueFilename_while.simps) simp
  then show ?thesis using assms(1) by (simp add: getUniqueFilename_def Let_def)
qed



text \<open>The names of the registries.\<close>

lemma strategy_names:
  "js ''original'' \<noteq> js ''default''" "js ''number'' \<noteq> js ''prevent''"
  "js ''original'' \<noteq> []" "js ''number'' \<noteq> []" "js ''default'' \<noteq> []" "js ''prevent'' \<noteq> []"
  "js ''default'' \<noteq> js ''original''" "js ''prevent'' \<noteq> js ''number''"
  by (simp_all add: js_def)

lemma getFinalFilename_default:
  assumes "orElse (withFilename meta) (js ''default'') = js ''default''"
  shows "getFinalFilename meta uploadId m = Some (Inr (JString uploadId), m)"
  using assms by (simp add: getFinalFilename_def filenameStrategies_def callFilenameHandler_def Let_def)

lemma getFinalFilename_unknown:
  assumes "orElse (withFilename meta) (js ''default'') \<noteq> js ''original''"
    and "Object_prototype (orElse (withFilename meta) (js ''default'')) = None"
  shows "getFinalFilename meta uploadId m = Some (Inr (JString uploadId), m)"
  using assms by (simp add: getFinalFilename_def filenameStrategies_def callFilenameHandler_def Let_def)

lemma getFinalFilename_inherited:
  assumes "Object_prototype (orElse (withFilename meta) (js ''default'')) = Some f"
  shows "getFinalFilename meta uploadId m = Some (callBuiltin f True, m)"
proof -
  have "orElse (withFilename meta) (js ''default'') \<noteq> js ''default''"
    "orElse (withFilename meta) (js ''default'') \<noteq> js ''original''"
    using assms by (auto simp: Object_prototype_def js_def split: if_splits)
  then show ?thesis
    using assms by (simp add: getFinalFilename_def filenameStrategies_def callFilenameHandler_def Let_def)
qed

lemma getFinalFilename_original_no_name:
  assumes "withFilename meta = Some (js ''original'')" "\<not> truthy (filename meta)"
  shows "getFinalFilename meta uploadId m = Some (Inr (JString uploadId), m)"
  using assms strategy_names
  by (simp add: getFinalFilename_def filenameStrategies_def callFilenameHandler_def orElse_def Let_def)

lemma getFinalFilename_original:
  assumes "withFilename meta = Some (js ''original'')" "truthy (filename meta)"
  shows "getFinalFilename meta uploadId m =
     callDuplicateHandler
       (case duplicateStrategies (orElse (onDuplicate meta) (js ''prevent'')) of
          NoProperty \<Rightarrow> duplicateStrategies (js ''prevent'')
        | found \<Rightarrow> found)
       (sanitizeFilename (orElse (filename meta) []))
       (getDestinationDir (destinationPath meta) m) m"
  using assms strategy_names
  by (simp add: getFinalFilename_def filenameStrategies_def callFilenameHandler_def orElse_def Let_def)

lemma getFinalFilename_prevent:
  assumes "withFilename meta = Some (js ''original'')" "truthy (filename meta)"
    and "orElse (onDuplicate meta) (js ''prevent'') = js ''prevent''"
  shows "getFinalFilename meta uploadId m
     = Some (Inr (JString (sanitizeFilename (orElse (filename meta) []))), m)"
  unfolding getFinalFilename_original[OF assms(1,2)]
  using assms(3) by (simp add: duplicateStrategies_def callDuplicateHandler_def)


section \<open>Example states\<close>

lemmas fs_defs = existsSync_def stat_def lookupNode_def readFileSync_def writeFileSync_def
  appendFileSync_def putFile_def openSync_a_def writeSync_def closeSync_def appendBody_def
  unlinkSync_def dirOnly_def

lemmas value_defs = truthy_def orElse_def sameNumber_def numberOf_def parseIntOpt_def

lemmas endpoint_defs = POST_def PATCH_def PATCH_try_def HEAD_def respond_def accepted_def
  advanced_def handleUploadComplete_def isMultipartPart_def

text \<open>
  A machine whose process runs in \<open>/srv\<close> with the default configuration, the staging
  directory \<open>/srv/staging\<close> and the mount path \<open>/srv/uploads\<close> both present and empty, and
  no operation made to fail.
\<close>

definition host0 :: machine where
  "host0 = \<lparr>cwd = [js ''srv''], STAGING_DIR = None, MOUNT_PATH = None,
     nodes = fmupd [js ''srv'', js ''uploads''] Directory
               (fmupd [js ''srv'', js ''staging''] Directory
                  (fmupd [js ''srv''] Directory fmempty)),
     fault = no_fault\<rparr>"

definition empty_server :: server where
  "empty_server = \<lparr>disk = host0, assemblies = Map.empty\<rparr>"

definition no_metadata :: UploadMetadata where
  "no_metadata = \<lparr>filename = None, filetype = None, multipartId = None, partIndex = None,
     totalParts = None, originalFileSize = None, withFilename = None, onDuplicate = None,
     destinationPath = None\<rparr>"

definition octet_stream :: jsstring where
  "octet_stream = js ''application/offset+octet-stream''"

text \<open>Paths on a machine that runs in \<open>/srv\<close> with the default configuration.\<close>

lemma default_dirs:
  assumes "cwd m = [js ''srv'']" "STAGING_DIR m = None" "MOUNT_PATH m = None"
  shows "stagingDir m = js ''./staging''" "mountPath m = js ''./uploads''"
    "resolvePath m (stagingDir m) = [js ''srv'', js ''staging'']"
    "resolvePath m (mountPath m) = [js ''srv'', js ''uploads'']"
    "stagingDir m \<noteq> []" "mountPath m \<noteq> []"
  using assms
  by (simp_all add: stagingDir_def mountPath_def orElse_def resolvePath_def js_def slash_def dot_def)

lemma staging_key:
  assumes "cwd m = [js ''srv'']" "STAGING_DIR m = None" "MOUNT_PATH m = None" "properName s"
  shows "resolvePath m (path_join (stagingDir m) s) = [js ''srv'', js ''staging'', s]"
    and "\<not> dirOnly (path_join (stagingDir m) s)"
  using default_dirs[OF assms(1-3)] assms(4)
  by (simp_all add: resolvePath_join_proper dirOnly_join_proper)

lemma proper_digits:
  "properName (js ''u1'')" "properName (js ''u1.json'')" "properName (js ''u1'' @ js ''.json'')"
  by (simp_all add: properName_def js_def slash_def dot_def)

lemma parseInt_digits:
  "parseInt (js ''0'') = Num 0" "parseInt (js ''1'') = Num 1" "parseInt (js ''2'') = Num 2"
  "parseInt (js ''3'') = Num 3" "parseInt (js ''5'') = Num 5" "parseInt (js ''100'') = Num 100"
  by (simp_all add: parseInt_def digitValue_def isDigitOf_def digitsValue_def isWhiteSpace_def
      js_def Let_def roundDouble_exact)

lemma host_fields:
  "cwd host0 = [js ''srv'']" "STAGING_DIR host0 = None" "MOUNT_PATH host0 = None"
  "fault host0 = no_fault"
  by (simp_all add: host0_def)

text \<open>An upload \<open>u1\<close> of 100 bytes, as \<open>POST\<close> creates it on the empty server.\<close>

definition created_100 :: server where
  "created_100 =
     snd (POST \<lparr>c_upload_length = Some (js ''100''), c_metadata = no_metadata,
                c_x_forwarded_proto = None, c_x_forwarded_host = None, c_host = None\<rparr>
            (js ''u1'') (js ''2025-01-01T00:00:00.000Z'') empty_server)"

definition info_100 :: UploadInfo where
  "info_100 = \<lparr>id_u = js ''u1'', size_u = Some (Num 100), offset_u = Some (Num 0),
     metadata_u = no_metadata, creation_date = js ''2025-01-01T00:00:00.000Z''\<rparr>"

definition disk_100 :: machine where
  "disk_100 = host0\<lparr>nodes :=
     fmupd [js ''srv'', js ''staging'', js ''u1.json''] (File [Doc info_100])
       (fmupd [js ''srv'', js ''staging'', js ''u1''] (File []) (nodes host0))\<rparr>"

lemma created_100_eq: "created_100 = \<lparr>disk = disk_100, assemblies = Map.empty\<rparr>"
proof -
  have k1: "resolvePath host0 (path_join (stagingDir host0) (js ''u1'')) = [js ''srv'', js ''staging'', js ''u1'']"
    "\<not> dirOnly (path_join (stagingDir host0) (js ''u1''))"
    using staging_key[OF host_fields(1-3) proper_digits(1)] by simp_all
  have w1: "writeFileSync (path_join (stagingDir host0) (js ''u1'')) [] host0
      = Inr (host0\<lparr>nodes := fmupd [js ''srv'', js ''staging'', js ''u1''] (File []) (nodes host0)\<rparr>)"
    using k1 by (simp add: writeFileSync_def putFile_def lookupNode_def host0_def no_fault_def js_def)
  let ?m1 = "host0\<lparr>nodes := fmupd [js ''srv'', js ''staging'', js ''u1''] (File []) (nodes host0)\<rparr>"
  have f1: "cwd ?m1 = [js ''srv'']" "STAGING_DIR ?m1 = None" "MOUNT_PATH ?m1 = None"
    by (simp_all add: host0_def)
  have k2: "resolvePath ?m1 (path_join (stagingDir ?m1) (js ''u1'' @ js ''.json'')) = [js ''srv'', js ''staging'', js ''u1.json'']"
    "\<not> dirOnly (path_join (stagingDir ?m1) (js ''u1'' @ js ''.json''))"
    using staging_key[OF f1 proper_digits(3)] by (simp_all add: js_def)
  have w2: "writeFileSync (path_join (stagingDir ?m1) (js ''u1'' @ js ''.json'')) [Doc info_100] ?m1 = Inr disk_100"
    using k2 by (simp add: writeFileSync_def putFile_def lookupNode_def host0_def disk_100_def no_fault_def js_def)
  have s: "JSON_stringify info_100 = [Doc info_100]"
    by (simp add: JSON_stringify_def info_100_def stringifyNumber_def)
  have ne: "js ''100'' \<noteq> []" by (simp add: js_def)
  have nm: "withFilename no_metadata = None" by (simp add: no_metadata_def)
  have i: "\<lparr>id_u = js ''u1'', size_u = Some (Num 100), offset_u = Some (Num 0),
     metadata_u = no_metadata, creation_date = js ''2025-01-01T00:00:00.000Z''\<rparr> = info_100"
    by (simp add: info_100_def)
  show ?thesis
    using w1 w2 s ne nm
    by (simp add: created_100_def POST_def empty_server_def truthy_def orElse_def
        parseInt_digits i Let_def)
qed

lemma disk_100_fields:
  "cwd disk_100 = [js ''srv'']" "STAGING_DIR disk_100 = None" "MOUNT_PATH disk_100 = None"
  "fault disk_100 = no_fault"
  by (simp_all add: disk_100_def host0_def)

lemma disk_100_sidecar:
  "readFileSync (sidecarPath disk_100 (js ''u1'')) disk_100 = Inr [Doc info_100]"
  "JSON_parse [Doc info_100] = Inr info_100"
proof -
  have k: "resolvePath disk_100 (path_join (stagingDir disk_100) (js ''u1'' @ js ''.json''))
      = [js ''srv'', js ''staging'', js ''u1.json'']"
    "\<not> dirOnly (path_join (stagingDir disk_100) (js ''u1'' @ js ''.json''))"
    using staging_key[OF disk_100_fields(1-3) proper_digits(3)] by (simp_all add: js_def)
  show "readFileSync (sidecarPath disk_100 (js ''u1'')) disk_100 = Inr [Doc info_100]"
    using k by (simp add: sidecarPath_def readFileSync_def stat_def lookupNode_def disk_100_fields no_fault_def)
      (simp add: disk_100_def)
  show "JSON_parse [Doc info_100] = Inr info_100"
    by (simp add: JSON_parse_def info_100_def parseNumber_def roundDouble_exact)
qed















section \<open>Partitioning policy\<close>

lemma getPartCount_pos: "1 \<le> getPartCount s"
proof (cases "512 * MB < s \<and> s \<le> 4096 * MB")
  case True
  then have "2 \<le> getPartCount s" by (intro getPartCount_mid(4)) simp_all
  then show ?thesis by simp
next
  case False
  then show ?thesis by (auto simp: getPartCount_def)
qed

text \<open>
  C7. For every file size, \<open>getPartCount\<close> is 1 up to 512 MiB, 8 above 4096 MiB, and the
  ceiling of size / 512 MiB in between (the least \<open>k\<close> with \<open>size \<le> k * 512 MiB\<close>, a
  number from 2 to 8); at the four thresholds it is 1, 2, 8 and 8.
\<close>

theorem getPartCount_thresholds:
  "(fileSize \<le> 512 * MB \<longrightarrow> getPartCount fileSize = 1) \<and>
   (fileSize > 4096 * MB \<longrightarrow> getPartCount fileSize = 8) \<and>
   (512 * MB < fileSize \<and> fileSize \<le> 4096 * MB \<longrightarrow>
      getPartCount fileSize = nat \<lceil>real fileSize / real (512 * MB)\<rceil> \<and>
      (getPartCount fileSize - 1) * (512 * MB) < fileSize \<and>
      fileSize \<le> getPartCount fileSize * (512 * MB) \<and>
      2 \<le> getPartCount fileSize \<and> getPartCount fileSize \<le> 8) \<and>
   getPartCount (512 * MB) = 1 \<and>
   getPartCount (512 * MB + 1) = 2 \<and>
   getPartCount (4096 * MB) = 8 \<and>
   getPartCount (4096 * MB + 1) = 8"
proof -
  have low: "fileSize \<le> 512 * MB \<longrightarrow> getPartCount fileSize = 1"
    by (simp add: getPartCount_def)
  have high: "fileSize > 4096 * MB \<longrightarrow> getPartCount fileSize = 8"
    by (simp add: getPartCount_def)
  have mid: "512 * MB < fileSize \<and> fileSize \<le> 4096 * MB \<longrightarrow>
      getPartCount fileSize = nat \<lceil>real fileSize / real (512 * MB)\<rceil> \<and>
      (getPartCount fileSize - 1) * (512 * MB) < fileSize \<and>
      fileSize \<le> getPartCount fileSize * (512 * MB) \<and>
      2 \<le> getPartCount fileSize \<and> getPartCount fileSize \<le> 8"
    using getPartCount_mid[of fileSize] by blast
  have t1: "getPartCount (512 * MB) = 1" by (simp add: getPartCount_def)
  have t2: "getPartCount (512 * MB + 1) = 2" by (simp add: getPartCount_def MB_def)
  have t3: "getPartCount (4096 * MB) = 8" by (simp add: getPartCount_def MB_def)
  have t4: "getPartCount (4096 * MB + 1) = 8" by (simp add: getPartCount_def MB_def)
  show ?thesis by (intro conjI low high mid t1 t2 t3 t4)
qed

text \<open>The theorem at 3 000 000 000 bytes, a size of the middle range: six parts.\<close>

theorem getPartCount_thresholds_witness:
  "512 * MB < (3000000000::nat) \<and> (3000000000::nat) \<le> 4096 * MB \<and>
   getPartCount 3000000000 = 6 \<and>
   (getPartCount 3000000000 - 1) * (512 * MB) < 3000000000 \<and>
   3000000000 \<le> getPartCount 3000000000 * (512 * MB)"
proof -
  have h: "512 * MB < (3000000000::nat) \<and> (3000000000::nat) \<le> 4096 * MB"
    by (simp add: MB_def)
  have v: "getPartCount 3000000000 = 6" by (simp add: getPartCount_def MB_def)
  from getPartCount_thresholds[of 3000000000] h
  have "(getPartCount 3000000000 - 1) * (512 * MB) < 3000000000 \<and>
        3000000000 \<le> getPartCount 3000000000 * (512 * MB)" by blast
  with h v show ?thesis by simp
qed

section \<open>Batch selection\<close>

text \<open>
  C8. The batch \<open>findOptimalBatch\<close> chooses is a selection of the pending files whose
  parts sum to at most the capacity, and no selection within the capacity that contains
  it (indeed none at all) has a larger sum. The scheduler launches a non-empty batch
  whenever a file is pending: the chosen batch, or, when that is empty, the first
  pending file alone, whose part count then exceeds the capacity.
\<close>

theorem findOptimalBatch_knapsack:
  "subseq (findOptimalBatch pending maxStreamCount) pending \<and>
   total (findOptimalBatch pending maxStreamCount) \<le> maxStreamCount \<and>
   (\<forall>B'. subseq B' pending \<and> subseq (findOptimalBatch pending maxStreamCount) B' \<and>
         total B' \<le> maxStreamCount \<longrightarrow>
         \<not> total B' > total (findOptimalBatch pending maxStreamCount)) \<and>
   (\<forall>B'. subseq B' pending \<and> total B' \<le> maxStreamCount \<longrightarrow>
         total B' \<le> total (findOptimalBatch pending maxStreamCount)) \<and>
   (remainingFiles fileQueue = [] \<longrightarrow> selectBatch fileQueue maxStreamCount = None) \<and>
   (remainingFiles fileQueue \<noteq> [] \<and>
    findOptimalBatch (remainingFiles fileQueue) maxStreamCount \<noteq> [] \<longrightarrow>
      selectBatch fileQueue maxStreamCount =
        Some (findOptimalBatch (remainingFiles fileQueue) maxStreamCount)) \<and>
   (remainingFiles fileQueue \<noteq> [] \<and>
    findOptimalBatch (remainingFiles fileQueue) maxStreamCount = [] \<longrightarrow>
      selectBatch fileQueue maxStreamCount = Some [remainingFiles fileQueue ! 0] \<and>
      maxStreamCount < parts (remainingFiles fileQueue ! 0))"
proof -
  let ?B = "findOptimalBatch pending maxStreamCount"
  have a: "subseq ?B pending \<and> total ?B \<le> maxStreamCount" by (rule findOptimalBatch_ok)
  have c: "\<forall>B'. subseq B' pending \<and> total B' \<le> maxStreamCount \<longrightarrow> total B' \<le> total ?B"
    using findOptimalBatch_optimal by blast
  then have b: "\<forall>B'. subseq B' pending \<and> subseq ?B B' \<and> total B' \<le> maxStreamCount \<longrightarrow>
         \<not> total B' > total ?B"
    by (simp add: not_less)
  let ?rf = "remainingFiles fileQueue"
  have d: "?rf = [] \<longrightarrow> selectBatch fileQueue maxStreamCount = None"
    by (simp add: selectBatch_def)
  have e: "?rf \<noteq> [] \<and> findOptimalBatch ?rf maxStreamCount \<noteq> [] \<longrightarrow>
      selectBatch fileQueue maxStreamCount = Some (findOptimalBatch ?rf maxStreamCount)"
    by (simp add: selectBatch_def Let_def)
  have f: "?rf \<noteq> [] \<and> findOptimalBatch ?rf maxStreamCount = [] \<longrightarrow>
      selectBatch fileQueue maxStreamCount = Some [?rf ! 0] \<and> maxStreamCount < parts (?rf ! 0)"
  proof
    assume h: "?rf \<noteq> [] \<and> findOptimalBatch ?rf maxStreamCount = []"
    then have s: "selectBatch fileQueue maxStreamCount = Some [?rf ! 0]"
      by (simp add: selectBatch_def Let_def)
    have mem: "?rf ! 0 \<in> set ?rf" using h by simp
    then have "\<exists>q. parts (?rf ! 0) = getPartCount q"
      by (auto simp: remainingFiles_def)
    then have pos: "1 \<le> parts (?rf ! 0)" using getPartCount_pos by auto
    have "maxStreamCount < parts (?rf ! 0)"
    proof (rule ccontr)
      assume "\<not> maxStreamCount < parts (?rf ! 0)"
      then have le: "total [?rf ! 0] \<le> maxStreamCount" by simp
      have "subseq [?rf ! 0] ?rf" using mem by (simp only: subseq_singleton_left)
      from findOptimalBatch_optimal[OF this le] h pos show False by simp
    qed
    with s show "selectBatch fileQueue maxStreamCount = Some [?rf ! 0] \<and>
       maxStreamCount < parts (?rf ! 0)" by simp
  qed
  show ?thesis by (intro conjI conjunct1[OF a] conjunct2[OF a] b c d e f)
qed

text \<open>
  The theorem on three pending of 3, 6 and 5 parts with capacity 8 (the batch is the first
  and the third, 8 parts, and the selection of the second file alone does not beat it),
  and on a queue of one pending file of 5 GiB with capacity 4 (the forced singleton).
\<close>

definition file_of_parts :: "nat \<Rightarrow> FileWithParts" where
  "file_of_parts n = \<lparr>id_f = [], name_f = [], size_f = 0, parts = n\<rparr>"

definition big_queue :: "QueuedFile list" where
  "big_queue = [\<lparr>id_q = js ''a'', status_q = Pending, name_q = js ''big.iso'', size_q = 5120 * MB\<rparr>]"

theorem findOptimalBatch_knapsack_witness:
  "findOptimalBatch [file_of_parts 3, file_of_parts 6, file_of_parts 5] 8
     = [file_of_parts 3, file_of_parts 5] \<and>
   subseq [file_of_parts 6] [file_of_parts 3, file_of_parts 6, file_of_parts 5] \<and>
   total [file_of_parts 6] \<le> 8 \<and>
   total [file_of_parts 6]
     \<le> total (findOptimalBatch [file_of_parts 3, file_of_parts 6, file_of_parts 5] 8) \<and>
   remainingFiles big_queue \<noteq> [] \<and>
   findOptimalBatch (remainingFiles big_queue) 4 = [] \<and>
   selectBatch big_queue 4 = Some [remainingFiles big_queue ! 0] \<and>
   4 < parts (remainingFiles big_queue ! 0)"
proof -
  let ?fs = "[file_of_parts 3, file_of_parts 6, file_of_parts 5]"
  have v: "findOptimalBatch ?fs 8 = [file_of_parts 3, file_of_parts 5]"
    by (simp add: findOptimalBatch_def file_of_parts_def backtrack.simps backtrack_for.simps)
  have h1: "subseq [file_of_parts 6] ?fs" by simp
  have h2: "total [file_of_parts 6] \<le> 8" by (simp add: file_of_parts_def)
  have rf: "remainingFiles big_queue =
      [\<lparr>id_f = js ''a'', name_f = js ''big.iso'', size_f = 5120 * MB, parts = 8\<rparr>]"
    by (simp add: remainingFiles_def big_queue_def getPartCount_def MB_def)
  have h3: "remainingFiles big_queue \<noteq> []" by (simp add: rf)
  have h4: "findOptimalBatch (remainingFiles big_queue) 4 = []"
    by (simp add: rf findOptimalBatch_def backtrack.simps backtrack_for.simps)
  note t1 = findOptimalBatch_knapsack[of ?fs 8 big_queue]
  note t2 = findOptimalBatch_knapsack[of ?fs 4 big_queue]
  from t1 h1 h2 have c1: "total [file_of_parts 6] \<le> total (findOptimalBatch ?fs 8)" by blast
  from t2 h3 h4 have c2: "selectBatch big_queue 4 = Some [remainingFiles big_queue ! 0] \<and>
      4 < parts (remainingFiles big_queue ! 0)" by blast
  show ?thesis by (intro conjI v h1 h2 c1 h3 h4 conjunct1[OF c2] conjunct2[OF c2])
qed

section \<open>Sanitizing and normalizing\<close>

lemma sanitize_allowed: "c \<in> set (sanitizeFilename s) \<Longrightarrow> \<not> filenameSanitizeRegex c"
  by (auto simp: sanitizeFilename_def sanitize_underscore)

lemma set_dropWhileEnd: "set (dropWhileEnd P xs) \<subseteq> set xs"
proof
  fix x assume "x \<in> set (dropWhileEnd P xs)"
  then have "x \<in> set (dropWhile P (rev xs))" by (simp add: dropWhileEnd_def)
  then have "x \<in> set (rev xs)" by (rule set_dropWhileD)
  then show "x \<in> set xs" by simp
qed

lemma set_dropWhile_subset: "set (dropWhile P xs) \<subseteq> set xs"
  using set_dropWhileD by fast

lemma stripSlashes_set: "set (stripSlashes s) \<subseteq> set s"
  unfolding stripSlashes_def
  by (rule order_trans[OF set_dropWhileEnd set_dropWhile_subset])

lemma trim_set: "set (trim s) \<subseteq> set s"
  unfolding trim_def
  by (rule order_trans[OF set_dropWhileEnd set_dropWhile_subset])

lemma normalize_set: "set (normalizeDestinationPath (Some q)) \<subseteq> insert slash (set q)"
proof -
  have "set (stripSlashes (trim q)) \<subseteq> set q"
    by (rule order_trans[OF stripSlashes_set trim_set])
  then show ?thesis by (auto simp: normalizeDestinationPath_def Let_def)
qed

lemma normalize_idem_no_space:
  assumes "\<forall>c\<in>set q. \<not> isWhiteSpace c"
  shows "normalizeDestinationPath (Some (normalizeDestinationPath (Some q)))
           = normalizeDestinationPath (Some q)"
proof (cases "normalizeDestinationPath (Some q) = []")
  case True then show ?thesis by (simp add: normalizeDestinationPath_def)
next
  case False
  then have "hd (normalizeDestinationPath (Some q)) \<in> set (normalizeDestinationPath (Some q))"
    by simp
  then have "hd (normalizeDestinationPath (Some q)) \<in> insert slash (set q)"
    using normalize_set by blast
  then have "\<not> isWhiteSpace (hd (normalizeDestinationPath (Some q)))"
    using assms not_ws_slash by auto
  then show ?thesis by (simp add: normalize_idem_iff)
qed

text \<open>
  C10, as amended. \<open>sanitizeFilename\<close> is idempotent (it keeps the length and leaves only
  code units of \<open>[A-Za-z0-9._-]\<close>). \<open>normalizeDestinationPath\<close> maps the absent and the
  empty path to the empty string, every non-empty output ends with a separator, and
  normalizing an output again gives the same output exactly when that output is empty or
  does not begin with white space; in particular for every path without white space.
\<close>

theorem sanitize_normalize_idempotent:
  "sanitizeFilename (sanitizeFilename s) = sanitizeFilename s \<and>
   length (sanitizeFilename s) = length s \<and>
   (\<forall>c\<in>set (sanitizeFilename s). \<not> filenameSanitizeRegex c) \<and>
   normalizeDestinationPath None = [] \<and>
   normalizeDestinationPath (Some []) = [] \<and>
   (normalizeDestinationPath p \<noteq> [] \<longrightarrow> endsWith (normalizeDestinationPath p) [slash]) \<and>
   (normalizeDestinationPath (Some (normalizeDestinationPath p)) = normalizeDestinationPath p
      \<longleftrightarrow> normalizeDestinationPath p = [] \<or> \<not> isWhiteSpace (hd (normalizeDestinationPath p))) \<and>
   ((\<forall>c\<in>set q. \<not> isWhiteSpace c) \<longrightarrow>
      normalizeDestinationPath (Some (normalizeDestinationPath (Some q)))
        = normalizeDestinationPath (Some q))"
proof -
  have a: "sanitizeFilename (sanitizeFilename s) = sanitizeFilename s" by (rule sanitize_idem)
  have b: "length (sanitizeFilename s) = length s" by (simp add: sanitizeFilename_def)
  have c: "\<forall>c\<in>set (sanitizeFilename s). \<not> filenameSanitizeRegex c"
    using sanitize_allowed by blast
  have d: "normalizeDestinationPath None = []" "normalizeDestinationPath (Some []) = []"
    by (simp_all add: normalizeDestinationPath_def)
  have e: "normalizeDestinationPath p \<noteq> [] \<longrightarrow> endsWith (normalizeDestinationPath p) [slash]"
    using normalize_ends_with_slash[of p] by (simp add: endsWith_slash)
  note f = normalize_idem_iff[of p]
  have g: "(\<forall>c\<in>set q. \<not> isWhiteSpace c) \<longrightarrow>
      normalizeDestinationPath (Some (normalizeDestinationPath (Some q)))
        = normalizeDestinationPath (Some q)"
    using normalize_idem_no_space by blast
  show ?thesis by (intro conjI a b c d e f g)
qed

text \<open>
  The theorem on \<open>my report (1).pdf\<close> and on the path \<open> //docs/2024// \<close>, which has
  white space at both ends and normalizes to \<open>docs/2024/\<close>, a fixed point.
\<close>

theorem sanitize_normalize_idempotent_witness:
  "sanitizeFilename (js ''my report (1).pdf'') = js ''my_report__1_.pdf'' \<and>
   sanitizeFilename (sanitizeFilename (js ''my report (1).pdf''))
      = sanitizeFilename (js ''my report (1).pdf'') \<and>
   normalizeDestinationPath (Some (js '' //docs/2024// '')) = js ''docs/2024/'' \<and>
   \<not> isWhiteSpace (hd (normalizeDestinationPath (Some (js '' //docs/2024// '')))) \<and>
   normalizeDestinationPath (Some (normalizeDestinationPath (Some (js '' //docs/2024// ''))))
      = normalizeDestinationPath (Some (js '' //docs/2024// ''))"
proof -
  have v1: "sanitizeFilename (js ''my report (1).pdf'') = js ''my_report__1_.pdf''"
    by (simp add: sanitizeFilename_def filenameSanitizeRegex_def js_def)
  have v2: "normalizeDestinationPath (Some (js '' //docs/2024// '')) = js ''docs/2024/''"
    by (simp add: normalizeDestinationPath_def js_def trim_def stripSlashes_def
        dropWhileEnd_def isWhiteSpace_def slash_def endsWith_def)
  have h: "\<not> isWhiteSpace (hd (normalizeDestinationPath (Some (js '' //docs/2024// ''))))"
    by (simp add: v2) (simp add: js_def isWhiteSpace_def)
  note t = sanitize_normalize_idempotent[of "js ''my report (1).pdf''"
      "Some (js '' //docs/2024// '')" "[]"]
  from t have i1: "sanitizeFilename (sanitizeFilename (js ''my report (1).pdf''))
      = sanitizeFilename (js ''my report (1).pdf'')" by blast
  from t h have i2: "normalizeDestinationPath (Some (normalizeDestinationPath (Some (js '' //docs/2024// ''))))
      = normalizeDestinationPath (Some (js '' //docs/2024// ''))" by blast
  show ?thesis by (intro conjI v1 v2 h i1 i2)
qed

text \<open>
  C10 as stated fails: \<open>/ a\<close> normalizes to \<open> a/\<close> (the white space is trimmed before
  the slashes are stripped, so the space that follows the leading slash stays), and
  \<open> a/\<close> normalizes to \<open>a/\<close>.
\<close>

theorem normalize_not_idempotent:
  "normalizeDestinationPath (Some (js ''/ a'')) = js '' a/'' \<and>
   normalizeDestinationPath (Some (normalizeDestinationPath (Some (js ''/ a'')))) = js ''a/'' \<and>
   normalizeDestinationPath (Some (normalizeDestinationPath (Some (js ''/ a''))))
     \<noteq> normalizeDestinationPath (Some (js ''/ a''))"
proof -
  have v1: "normalizeDestinationPath (Some (js ''/ a'')) = js '' a/''"
    by (simp add: normalizeDestinationPath_def js_def trim_def stripSlashes_def
        dropWhileEnd_def isWhiteSpace_def slash_def endsWith_def)
  have v2: "normalizeDestinationPath (Some (js '' a/'')) = js ''a/''"
    by (simp add: normalizeDestinationPath_def js_def trim_def stripSlashes_def
        dropWhileEnd_def isWhiteSpace_def slash_def endsWith_def)
  have ne: "js ''a/'' \<noteq> js '' a/''" by (simp add: js_def)
  from v1 v2 ne show ?thesis by simp
qed


section \<open>Offset mismatch\<close>

text \<open>
  C3. A \<open>PATCH\<close> names an existing upload, whose sidecar parses to \<open>info\<close>, and its
  \<open>Upload-Offset\<close>, as the handler reads it with \<open>parseInt\<close>, is not the stored offset.
  When the request has passed the two header checks that come first (a non-empty
  \<open>Upload-Offset\<close>, the content type \<open>application/offset+octet-stream\<close>), the response
  is 409 \<open>Offset mismatch\<close>. In every case the whole state is unchanged: no byte is
  appended to the payload file and the sidecar is as before, so that \<open>HEAD\<close> answers as
  before the request and reports the stored offset.
\<close>

theorem PATCH_offset_mismatch:
  assumes "p_uploadId req = Some uploadId" "uploadId \<noteq> []"
    and "readFileSync (sidecarPath (disk st) uploadId) (disk st) = Inr content"
    and "JSON_parse content = Inr info"
    and "\<not> sameNumber (parseIntOpt (p_upload_offset req)) (offset_u info)"
  shows "(\<exists>resp. PATCH req st = Some (resp, st) \<and>
           (status_r resp = 409 \<or> status_r resp = 400)) \<and>
     (truthy (p_upload_offset req) \<and>
      p_content_type req = Some (js ''application/offset+octet-stream'') \<longrightarrow>
        PATCH req st = Some (respond 409 (ErrorText (js ''Offset mismatch'')), st)) \<and>
     (\<forall>resp st'. PATCH req st = Some (resp, st') \<longrightarrow>
        st' = st \<and>
        fileAt (disk st') (payloadPath (disk st') uploadId) = fileAt (disk st) (payloadPath (disk st) uploadId) \<and>
        readFileSync (sidecarPath (disk st') uploadId) (disk st') = Inr content \<and>
        HEAD (Some uploadId) st' = HEAD (Some uploadId) st) \<and>
     (\<forall>off sz. offset_u info = Some off \<and> size_u info = Some sz \<longrightarrow>
        status_r (HEAD (Some uploadId) st) = 200 \<and>
        Upload_Offset (HEAD (Some uploadId) st) = Some off)"
proof -
  note m = PATCH_mismatch[OF assms]
  have a: "\<exists>resp. PATCH req st = Some (resp, st) \<and> (status_r resp = 409 \<or> status_r resp = 400)"
    unfolding m by (simp add: respond_def)
  have b: "truthy (p_upload_offset req) \<and>
      p_content_type req = Some (js ''application/offset+octet-stream'') \<longrightarrow>
        PATCH req st = Some (respond 409 (ErrorText (js ''Offset mismatch'')), st)"
    unfolding m by simp
  have c: "\<forall>resp st'. PATCH req st = Some (resp, st') \<longrightarrow>
        st' = st \<and>
        fileAt (disk st') (payloadPath (disk st') uploadId) = fileAt (disk st) (payloadPath (disk st) uploadId) \<and>
        readFileSync (sidecarPath (disk st') uploadId) (disk st') = Inr content \<and>
        HEAD (Some uploadId) st' = HEAD (Some uploadId) st"
    unfolding m using assms(3) by auto
  have d: "\<forall>off sz. offset_u info = Some off \<and> size_u info = Some sz \<longrightarrow>
        status_r (HEAD (Some uploadId) st) = 200 \<and>
        Upload_Offset (HEAD (Some uploadId) st) = Some off"
    using HEAD_reports[OF assms(2,3,4)] by (simp add: respond_def)
  show ?thesis by (intro conjI a b c d)
qed

text \<open>
  The sixth scenario: on the upload of 100 bytes just created, a first \<open>PATCH\<close> at
  \<open>Upload-Offset: 5\<close> is answered 409, the state is the same, the payload is still
  empty, and \<open>HEAD\<close> reports the offset 0.
\<close>

definition patch_at_5 :: patch_request where
  "patch_at_5 = \<lparr>p_uploadId = Some (js ''u1''), p_upload_offset = Some (js ''5''),
     p_content_type = Some octet_stream, p_body = [1, 2, 3]\<rparr>"

theorem PATCH_offset_mismatch_witness:
  "p_uploadId patch_at_5 = Some (js ''u1'') \<and> js ''u1'' \<noteq> [] \<and>
   readFileSync (sidecarPath (disk created_100) (js ''u1'')) (disk created_100) = Inr [Doc info_100] \<and>
   JSON_parse [Doc info_100] = Inr info_100 \<and>
   \<not> sameNumber (parseIntOpt (p_upload_offset patch_at_5)) (offset_u info_100) \<and>
   PATCH patch_at_5 created_100 = Some (respond 409 (ErrorText (js ''Offset mismatch'')), created_100) \<and>
   fileAt (disk created_100) (payloadPath (disk created_100) (js ''u1'')) = Some [] \<and>
   Upload_Offset (HEAD (Some (js ''u1'')) created_100) = Some (Num 0)"
proof -
  have d: "disk created_100 = disk_100" by (simp add: created_100_eq)
  have h1: "p_uploadId patch_at_5 = Some (js ''u1'')" by (simp add: patch_at_5_def)
  have h2: "js ''u1'' \<noteq> []" by (simp add: js_def)
  have h3: "readFileSync (sidecarPath (disk created_100) (js ''u1'')) (disk created_100) = Inr [Doc info_100]"
    unfolding d by (rule disk_100_sidecar(1))
  have h4: "JSON_parse [Doc info_100] = Inr info_100" by (rule disk_100_sidecar(2))
  have h5: "\<not> sameNumber (parseIntOpt (p_upload_offset patch_at_5)) (offset_u info_100)"
    by (simp add: patch_at_5_def info_100_def sameNumber_def parseIntOpt_def parseInt_digits)
  note t = PATCH_offset_mismatch[OF h1 h2 h3 h4 h5]
  have h6: "truthy (p_upload_offset patch_at_5) \<and>
      p_content_type patch_at_5 = Some (js ''application/offset+octet-stream'')"
    by (simp add: patch_at_5_def octet_stream_def truthy_def js_def)
  from t h6 have c1: "PATCH patch_at_5 created_100
      = Some (respond 409 (ErrorText (js ''Offset mismatch'')), created_100)" by blast
  have k: "resolvePath disk_100 (path_join (stagingDir disk_100) (js ''u1'')) = [js ''srv'', js ''staging'', js ''u1'']"
    "\<not> dirOnly (path_join (stagingDir disk_100) (js ''u1''))"
    using staging_key[OF disk_100_fields(1-3) proper_digits(1)] by simp_all
  have c2: "fileAt (disk created_100) (payloadPath (disk created_100) (js ''u1'')) = Some []"
    unfolding d using k by (simp add: fileAt_def payloadPath_def stat_def lookupNode_def)
      (simp add: disk_100_def js_def)
  have h7: "offset_u info_100 = Some (Num 0) \<and> size_u info_100 = Some (Num 100)"
    by (simp add: info_100_def)
  from t h7 have c3: "Upload_Offset (HEAD (Some (js ''u1'')) created_100) = Some (Num 0)" by blast
  show ?thesis by (intro conjI h1 h2 h3 h4 h5 c1 c2 c3)
qed

section \<open>Duplicate rejection at create\<close>



end
